theory Spec2Isabelle
  imports Main
begin

section \<open>Strings and regular expressions of the host language\<close>

text \<open>
  Strings are lists of 8-bit characters. Indices are \<open>int\<close>, because the source
  computes with the \<open>-1\<close> that a failed search returns.
\<close>

datatype error =
    TypeError       \<comment> \<open>a property read on \<open>null\<close> or \<open>undefined\<close>\<close>
  | SyntaxError     \<comment> \<open>raised by \<open>JSON.parse\<close>\<close>
  | DepthExceeded   \<comment> \<open>\<open>Error("getBoundedDivMarkup exceeded depth parameters.")\<close>\<close>
  | Unsupported     \<comment> \<open>not an error of the source: the input leaves the modelled fragment of JSON\<close>

definition substring_from :: "string \<Rightarrow> int \<Rightarrow> string" where
  \<comment> \<open>\<open>s.substring(a)\<close>: a negative start counts as 0, a start beyond the end gives the empty string.\<close>
  "substring_from s a = drop (nat a) s"

definition substring :: "string \<Rightarrow> int \<Rightarrow> int \<Rightarrow> string" where
  \<comment> \<open>\<open>s.substring(a, b)\<close>: both ends are clamped to \<open>[0, length]\<close> and swapped when \<open>a > b\<close>.\<close>
  "substring s a b =
     (let n = int (length s);
          a' = max 0 (min a n);
          b' = max 0 (min b n);
          lo = min a' b';
          hi = max a' b'
      in take (nat (hi - lo)) (drop (nat lo) s))"

definition is_space :: "char \<Rightarrow> bool" where
  "is_space c = (c \<in> set [CHR '' '', CHR 0x09, CHR 0x0A, CHR 0x0B, CHR 0x0C, CHR 0x0D, CHR 0xA0])"

definition trim :: "string \<Rightarrow> string" where
  "trim s = rev (dropWhile is_space (rev (dropWhile is_space s)))"

fun startsWith :: "string \<Rightarrow> string \<Rightarrow> bool" where
  \<comment> \<open>\<open>s.startsWith(p)\<close>\<close>
  "startsWith s [] = True"
| "startsWith [] (p # ps) = False"
| "startsWith (c # cs) (p # ps) = (c = p \<and> startsWith cs ps)"

lemma startsWith_take: "startsWith s p = (take (length p) s = p)"
  by (induction s p rule: startsWith.induct) auto

fun replaceAll :: "string \<Rightarrow> string \<Rightarrow> string \<Rightarrow> string" where
  \<comment> \<open>\<open>s.replace(/pat/g, rep)\<close> for a literal, non-empty \<open>pat\<close>: leftmost matches, not overlapping.\<close>
  "replaceAll pat rep [] = []"
| "replaceAll pat rep (c # cs) =
     (if startsWith (c # cs) pat \<and> pat \<noteq> []
      then rep @ replaceAll pat rep (drop (length pat - 1) cs)
      else c # replaceAll pat rep cs)"

subsection \<open>The regular expressions the source uses\<close>

text \<open>
  The patterns of the source are sequences of single characters, character classes,
  starred classes (greedy \<open>*\<close> and lazy \<open>*?\<close>), the word boundary \<open>\b\<close>, the anchors
  and one capture group. \<open>rx_match\<close> is the backtracking matcher of the language for
  such sequences: at a star it tries the greedy (or lazy) choice first and falls back to
  the other.
\<close>

datatype cclass =
    Exact char      \<comment> \<open>a literal character\<close>
  | NoCase char char  \<comment> \<open>a letter under the \<open>i\<close> flag: its lower and its upper case\<close>
  | NotChar char    \<comment> \<open>\<open>[^c]\<close>\<close>
  | Digit           \<comment> \<open>\<open>\d\<close>\<close>
  | Dot             \<comment> \<open>\<open>.\<close>: anything but a line terminator\<close>

datatype atom =
    Chr cclass
  | Star cclass
  | StarLazy cclass
  | WordBoundary
  | GroupOpen
  | GroupClose
  | Bol
  | Eol

type_synonym regex = "atom list"

definition is_upper :: "char \<Rightarrow> bool" where
  "is_upper c = (c \<in> set ''ABCDEFGHIJKLMNOPQRSTUVWXYZ'')"

definition is_lower :: "char \<Rightarrow> bool" where
  "is_lower c = (c \<in> set ''abcdefghijklmnopqrstuvwxyz'')"

definition is_digit :: "char \<Rightarrow> bool" where
  "is_digit c = (c \<in> set ''0123456789'')"

definition to_lower :: "char \<Rightarrow> char" where
  "to_lower c =
     (case map_of (zip ''ABCDEFGHIJKLMNOPQRSTUVWXYZ'' ''abcdefghijklmnopqrstuvwxyz'') c of
        None \<Rightarrow> c
      | Some l \<Rightarrow> l)"

definition to_upper :: "char \<Rightarrow> char" where
  "to_upper c =
     (case map_of (zip ''abcdefghijklmnopqrstuvwxyz'' ''ABCDEFGHIJKLMNOPQRSTUVWXYZ'') c of
        None \<Rightarrow> c
      | Some u \<Rightarrow> u)"

definition is_word :: "char \<Rightarrow> bool" where
  "is_word c = (is_lower c \<or> is_upper c \<or> is_digit c \<or> c = CHR ''_'')"

fun cmatch :: "cclass \<Rightarrow> char \<Rightarrow> bool" where
  "cmatch (Exact p) c = (c = p)"
| "cmatch (NoCase l u) c = (c = l \<or> c = u)"
| "cmatch (NotChar p) c = (c \<noteq> p)"
| "cmatch Digit c = is_digit c"
| "cmatch Dot c = (c \<noteq> CHR 0x0A \<and> c \<noteq> CHR 0x0D)"

definition at_boundary :: "char option \<Rightarrow> string \<Rightarrow> bool" where
  "at_boundary prev s =
     ((case prev of None \<Rightarrow> False | Some p \<Rightarrow> is_word p) \<noteq>
      (case s of [] \<Rightarrow> False | x # _ \<Rightarrow> is_word x))"

type_synonym group = "nat option \<times> nat option"

fun rx_match :: "regex \<Rightarrow> char option \<Rightarrow> string \<Rightarrow> nat \<Rightarrow> group \<Rightarrow> (nat \<times> group) option" where
  "rx_match [] prev s i g = Some (i, g)"
| "rx_match (Chr c # ps) prev [] i g = None"
| "rx_match (Chr c # ps) prev (x # xs) i g =
     (if cmatch c x then rx_match ps (Some x) xs (i + 1) g else None)"
| "rx_match (Star c # ps) prev [] i g = rx_match ps prev [] i g"
| "rx_match (Star c # ps) prev (x # xs) i g =
     (if cmatch c x
      then (case rx_match (Star c # ps) (Some x) xs (i + 1) g of
              Some r \<Rightarrow> Some r
            | None \<Rightarrow> rx_match ps prev (x # xs) i g)
      else rx_match ps prev (x # xs) i g)"
| "rx_match (StarLazy c # ps) prev [] i g = rx_match ps prev [] i g"
| "rx_match (StarLazy c # ps) prev (x # xs) i g =
     (case rx_match ps prev (x # xs) i g of
        Some r \<Rightarrow> Some r
      | None \<Rightarrow> (if cmatch c x then rx_match (StarLazy c # ps) (Some x) xs (i + 1) g else None))"
| "rx_match (WordBoundary # ps) prev s i g =
     (if at_boundary prev s then rx_match ps prev s i g else None)"
| "rx_match (GroupOpen # ps) prev s i g = rx_match ps prev s i (Some i, snd g)"
| "rx_match (GroupClose # ps) prev s i g = rx_match ps prev s i (fst g, Some i)"
| "rx_match (Bol # ps) prev s i g =
     (if prev = None then rx_match ps prev s i g else None)"
| "rx_match (Eol # ps) prev s i g =
     (if s = [] then rx_match ps prev s i g else None)"

fun rx_search :: "regex \<Rightarrow> char option \<Rightarrow> string \<Rightarrow> nat \<Rightarrow> (nat \<times> nat \<times> group) option" where
  \<comment> \<open>the leftmost start at which the pattern matches: (start, length, group)\<close>
  "rx_search re prev [] k =
     (case rx_match re prev [] 0 (None, None) of
        Some (e, g) \<Rightarrow> Some (k, e, g)
      | None \<Rightarrow> None)"
| "rx_search re prev (x # xs) k =
     (case rx_match re prev (x # xs) 0 (None, None) of
        Some (e, g) \<Rightarrow> Some (k, e, g)
      | None \<Rightarrow> rx_search re (Some x) xs (k + 1))"

definition rx_group :: "string \<Rightarrow> nat \<Rightarrow> group \<Rightarrow> string option" where
  \<comment> \<open>the text of capture group 1 (\<open>undefined\<close> when the group took no part)\<close>
  "rx_group s k g =
     (case g of
        (Some a, Some b) \<Rightarrow> Some (take (b - a) (drop (k + a) s))
      | _ \<Rightarrow> None)"

definition rx_exec :: "regex \<Rightarrow> string \<Rightarrow> (string \<times> string option) option" where
  \<comment> \<open>\<open>re.exec(s)\<close>: \<open>None\<close> is \<open>null\<close>, else the match array: element 0 and element 1.\<close>
  "rx_exec re s =
     (case rx_search re None s 0 of
        None \<Rightarrow> None
      | Some (k, e, g) \<Rightarrow> Some (take e (drop k s), rx_group s k g))"

definition search :: "string \<Rightarrow> regex \<Rightarrow> int" where
  \<comment> \<open>\<open>s.search(re)\<close>: the index of the first match, or \<open>-1\<close>.\<close>
  "search s re = (case rx_search re None s 0 of None \<Rightarrow> -1 | Some (k, _) \<Rightarrow> int k)"

definition lit_i :: "string \<Rightarrow> regex" where
  \<comment> \<open>a literal run of a pattern with the \<open>i\<close> flag\<close>
  "lit_i s =
     map (\<lambda>c. Chr (if to_lower c = to_upper c then Exact c else NoCase (to_lower c) (to_upper c))) s"

definition regexIndexOf :: "string \<Rightarrow> regex \<Rightarrow> int \<Rightarrow> int" where
  "regexIndexOf this regex startpos =
     (let indexOf = search (substring_from this startpos) regex
      in if indexOf \<ge> 0 then indexOf + startpos else indexOf)"

definition attr_regex :: "string \<Rightarrow> regex" where
  \<comment> \<open>\<open>new RegExp(`${attrName}="([^"]*?)"`, "i")\<close> for an attribute name without
      regular-expression metacharacters, as at every call site.\<close>
  "attr_regex attrName =
     lit_i attrName @ [Chr (Exact CHR ''=''), Chr (Exact CHR 0x22), GroupOpen,
       StarLazy (NotChar CHR 0x22), GroupClose, Chr (Exact CHR 0x22)]"

definition getAttrValueFromString :: "string \<Rightarrow> string \<Rightarrow> error + string option" where
  \<comment> \<open>\<open>match.length\<close> on a \<open>null\<close> match raises a TypeError; the array of a match
      has length 2, so element 1 is returned.\<close>
  "getAttrValueFromString html attrName =
     (case rx_exec (attr_regex attrName) html of
        None \<Rightarrow> Inl TypeError
      | Some (m0, m1) \<Rightarrow> Inr m1)"

section \<open>The markup scanner\<close>

definition div_open :: regex where
  \<comment> \<open>\<open>/<div[^>]*>/i\<close>\<close>
  "div_open = lit_i ''<div'' @ [Star (NotChar CHR ''>''), Chr (Exact CHR ''>'')]"

definition div_close :: regex where
  \<comment> \<open>\<open>/<\\/div>/i\<close>\<close>
  "div_close = lit_i ''</div>''"

definition scan_step :: "string \<Rightarrow> int \<times> int \<Rightarrow> (int \<times> int) \<times> int" where
  \<comment> \<open>One pass of the inner loop up to its two tests: the new \<open>(openCounter, searchIndex)\<close>
      and \<open>nextCloseDiv\<close>.\<close>
  "scan_step cleanedHtml st =
     (let openCounter = fst st;
          searchIndex = snd st;
          nextDivOpen0 = regexIndexOf cleanedHtml div_open searchIndex;
          nextCloseDiv = regexIndexOf cleanedHtml div_close searchIndex;
          nextDivOpen = (if nextDivOpen0 < 0 then int (length cleanedHtml) + 1 else nextDivOpen0)
      in if nextDivOpen < nextCloseDiv then ((openCounter + 1, nextDivOpen + 1), nextCloseDiv)
         else if nextCloseDiv < nextDivOpen then ((openCounter - 1, nextCloseDiv + 1), nextCloseDiv)
         else ((openCounter, searchIndex), nextCloseDiv))"

partial_function (option) find_close :: "string \<Rightarrow> int \<times> int \<Rightarrow> (error + int) option" where
  \<comment> \<open>The inner \<open>while (true)\<close>: \<open>Some (Inr nextCloseDiv)\<close> at the \<open>break\<close>,
      \<open>Some (Inl DepthExceeded)\<close> at the \<open>throw\<close>, \<open>None\<close> when the loop never ends.\<close>
  "find_close cleanedHtml st =
     (case scan_step cleanedHtml st of
        ((openCounter, searchIndex), nextCloseDiv) \<Rightarrow>
          if openCounter = 0 then Some (Inr nextCloseDiv)
          else if openCounter > 1000 \<or> openCounter < 0 then Some (Inl DepthExceeded)
          else find_close cleanedHtml (openCounter, searchIndex))"

declare find_close.simps [code]

type_synonym ('a, 's) collector = "string \<Rightarrow> 's \<Rightarrow> (error + 'a \<times> 's) option"

partial_function (option) blocks_loop ::
  "string \<Rightarrow> regex \<Rightarrow> ('a, 's) collector \<Rightarrow> int \<Rightarrow> 'a list \<times> 's
     \<Rightarrow> (error + 'a list \<times> 's) option" where
  \<comment> \<open>The outer \<open>while (startIndex > -1)\<close>. The collector is a closure of the source;
      what it mutates is the state \<open>'s\<close> that it takes and returns, and it may itself
      raise or (calling the scanner again) never return.\<close>
  "blocks_loop cleanedHtml boundaryStartPattern collector startIndex acc =
     (if startIndex > -1 then
        (case find_close cleanedHtml (1, startIndex + 1) of
           None \<Rightarrow> None
         | Some (Inl e) \<Rightarrow> Some (Inl e)
         | Some (Inr nextCloseDiv) \<Rightarrow>
             (let markup = trim (substring cleanedHtml startIndex (nextCloseDiv + 6))
              in case collector markup (snd acc) of
                   None \<Rightarrow> None
                 | Some (Inl e) \<Rightarrow> Some (Inl e)
                 | Some (Inr (b, st')) \<Rightarrow>
                     blocks_loop cleanedHtml boundaryStartPattern collector
                       (regexIndexOf cleanedHtml boundaryStartPattern nextCloseDiv)
                       (fst acc @ [b], st')))
      else Some (Inr acc))"

declare blocks_loop.simps [code]

definition strip_whitespace :: "string \<Rightarrow> string" where
  \<comment> \<open>\<open>html.replace(/[\t\r\n]/g, "")\<close>\<close>
  "strip_whitespace h = filter (\<lambda>c. c \<notin> set [CHR 0x09, CHR 0x0D, CHR 0x0A]) h"

definition getBoundedDivMarkup ::
  "string option \<Rightarrow> regex \<Rightarrow> ('a, 's) collector \<Rightarrow> 's \<Rightarrow> (error + 'a list \<times> 's) option" where
  \<comment> \<open>\<open>None\<close> as \<open>html\<close> is \<open>null\<close> or \<open>undefined\<close>.\<close>
  "getBoundedDivMarkup html boundaryStartPattern collector st =
     (case html of
        None \<Rightarrow> Some (Inr ([], st))
      | Some h \<Rightarrow>
          (let cleanedHtml = strip_whitespace h;
               startIndex = regexIndexOf cleanedHtml boundaryStartPattern 0
           in if startIndex < 0 then Some (Inr ([], st))
              else blocks_loop cleanedHtml boundaryStartPattern collector startIndex ([], st)))"

section \<open>Values of the host language and JSON\<close>

text \<open>
  A value that the source holds in an untyped field or reads out of parsed JSON. Numbers
  are the integers; a JSON text with another number is outside the model
  (\<open>Unsupported\<close>). An object is the list of its own properties in insertion order.
\<close>

datatype jsval =
    Undefined
  | Null
  | Bool bool
  | Num int
  | Str string
  | Arr "jsval list"
  | Obj "(string \<times> jsval) list"

fun strict_eq :: "jsval \<Rightarrow> jsval \<Rightarrow> bool" where
  \<comment> \<open>\<open>a === b\<close> where the two operands were built apart: two objects or arrays are
      then never the same reference.\<close>
  "strict_eq Undefined Undefined = True"
| "strict_eq Null Null = True"
| "strict_eq (Bool a) (Bool b) = (a = b)"
| "strict_eq (Num a) (Num b) = (a = b)"
| "strict_eq (Str a) (Str b) = (a = b)"
| "strict_eq _ _ = False"

fun get_prop :: "jsval \<Rightarrow> string \<Rightarrow> error + jsval" where
  \<comment> \<open>\<open>v.key\<close> for the keys the source reads\<close>
  "get_prop Undefined key = Inl TypeError"
| "get_prop Null key = Inl TypeError"
| "get_prop (Obj ms) key = Inr (case map_of ms key of None \<Rightarrow> Undefined | Some v \<Rightarrow> v)"
| "get_prop (Str s) key = Inr (if key = ''length'' then Num (int (length s)) else Undefined)"
| "get_prop (Arr xs) key = Inr (if key = ''length'' then Num (int (length xs)) else Undefined)"
| "get_prop _ key = Inr Undefined"

definition digit_char :: "nat \<Rightarrow> char" where
  \<comment> \<open>the digit \<open>n < 10\<close>\<close>
  "digit_char n = ''0123456789'' ! n"

function show_nat :: "nat \<Rightarrow> string" where
  "show_nat n = (if n < 10 then [digit_char n] else show_nat (n div 10) @ [digit_char (n mod 10)])"
  by pat_completeness auto
termination
  by (relation "measure id") auto

declare show_nat.simps [simp del]

definition show_int :: "int \<Rightarrow> string" where
  "show_int i = (if i < 0 then CHR ''-'' # show_nat (nat (- i)) else show_nat (nat i))"

definition join :: "string \<Rightarrow> string list \<Rightarrow> string" where
  "join sep xs = (case xs of [] \<Rightarrow> [] | y # ys \<Rightarrow> y @ concat (map (\<lambda>z. sep @ z) ys))"

fun toString :: "jsval \<Rightarrow> string"
  and toString_elems :: "jsval list \<Rightarrow> string list" where
  \<comment> \<open>the conversion of a template literal; an array joins its elements with commas\<close>
  "toString Undefined = ''undefined''"
| "toString Null = ''null''"
| "toString (Bool b) = (if b then ''true'' else ''false'')"
| "toString (Num n) = show_int n"
| "toString (Str s) = s"
| "toString (Arr xs) = join '','' (toString_elems xs)"
| "toString (Obj ms) = ''[object Object]''"
| "toString_elems [] = []"
| "toString_elems (x # xs) =
     (case x of Undefined \<Rightarrow> [] | Null \<Rightarrow> [] | _ \<Rightarrow> toString x) # toString_elems xs"


subsection \<open>\<open>JSON.stringify\<close>\<close>

definition is_control :: "char \<Rightarrow> bool" where
  \<comment> \<open>a code below 32\<close>
  "is_control c = ((of_char c :: nat) < 32)"

lemma is_control_code [code]:
  "is_control (Char b0 b1 b2 b3 b4 b5 b6 b7) = (\<not> b5 \<and> \<not> b6 \<and> \<not> b7)"
  by (cases b0; cases b1; cases b2; cases b3; cases b4; cases b5; cases b6; cases b7)
     (simp_all add: is_control_def)

definition hex_char :: "nat \<Rightarrow> char" where
  "hex_char n = ''0123456789abcdef'' ! n"

definition quote_char :: "char \<Rightarrow> string" where
  "quote_char c =
     (if c = CHR 0x22 then [CHR 0x5C, CHR 0x22]
      else if c = CHR 0x5C then [CHR 0x5C, CHR 0x5C]
      else if c = CHR 0x08 then [CHR 0x5C, CHR ''b'']
      else if c = CHR 0x0C then [CHR 0x5C, CHR ''f'']
      else if c = CHR 0x0A then [CHR 0x5C, CHR ''n'']
      else if c = CHR 0x0D then [CHR 0x5C, CHR ''r'']
      else if c = CHR 0x09 then [CHR 0x5C, CHR ''t'']
      else if is_control c
        then [CHR 0x5C, CHR ''u'', CHR ''0'', CHR ''0'',
              hex_char (of_char c div 16), hex_char (of_char c mod 16)]
      else [c])"

definition quote :: "string \<Rightarrow> string" where
  "quote s = [CHR 0x22] @ concat (map quote_char s) @ [CHR 0x22]"

fun stringify_val :: "jsval \<Rightarrow> string"
  and stringify_elems :: "jsval list \<Rightarrow> string list"
  and stringify_members :: "(string \<times> jsval) list \<Rightarrow> string list" where
  \<comment> \<open>an \<open>undefined\<close> element of an array is written \<open>null\<close>, an \<open>undefined\<close>
      property of an object is left out\<close>
  "stringify_val Undefined = ''null''"
| "stringify_val Null = ''null''"
| "stringify_val (Bool b) = (if b then ''true'' else ''false'')"
| "stringify_val (Num n) = show_int n"
| "stringify_val (Str s) = quote s"
| "stringify_val (Arr xs) = ''['' @ join '','' (stringify_elems xs) @ '']''"
| "stringify_val (Obj ms) = ''{'' @ join '','' (stringify_members ms) @ ''}''"
| "stringify_elems [] = []"
| "stringify_elems (x # xs) = stringify_val x # stringify_elems xs"
| "stringify_members [] = []"
| "stringify_members ((k, v) # ms) =
     (case v of
        Undefined \<Rightarrow> stringify_members ms
      | _ \<Rightarrow> (quote k @ '':'' @ stringify_val v) # stringify_members ms)"

definition JSON_stringify :: "jsval \<Rightarrow> string option" where
  \<comment> \<open>\<open>JSON.stringify(undefined)\<close> is \<open>undefined\<close>\<close>
  "JSON_stringify v = (case v of Undefined \<Rightarrow> None | _ \<Rightarrow> Some (stringify_val v))"

subsection \<open>\<open>JSON.parse\<close>\<close>

text \<open>
  The grammar of ECMA-404: a tokeniser, then a stack machine over the tokens. A token
  that is well-formed JSON but has no value in the model (a number with a fraction or an
  exponent, an escape \<open>\uXXXX\<close> above \<open>00FF\<close>) is kept as \<open>None\<close>; a text that
  parses with such a token gives \<open>Unsupported\<close>, any ill-formed text \<open>SyntaxError\<close>.
\<close>

datatype token =
    TLBrace | TRBrace | TLBrack | TRBrack | TColon | TComma
  | TStr "string option" | TNum "int option" | TTrue | TFalse | TNull

definition hex_val :: "char \<Rightarrow> nat option" where
  "hex_val c = map_of (zip ''0123456789abcdefABCDEF''
     [0, 1, 2, 3, 4, 5, 6, 7, 8, 9, 10, 11, 12, 13, 14, 15, 10, 11, 12, 13, 14, 15]) c"

definition hex4 :: "char \<Rightarrow> char \<Rightarrow> char \<Rightarrow> char \<Rightarrow> nat option" where
  "hex4 a b c d =
     (case (hex_val a, hex_val b, hex_val c, hex_val d) of
        (Some w, Some x, Some y, Some z) \<Rightarrow> Some (((w * 16 + x) * 16 + y) * 16 + z)
      | _ \<Rightarrow> None)"

definition unescape_char :: "char \<Rightarrow> char option" where
  "unescape_char e = map_of
     [(CHR 0x22, CHR 0x22), (CHR 0x5C, CHR 0x5C), (CHR ''/'', CHR ''/''), (CHR ''b'', CHR 0x08),
      (CHR ''f'', CHR 0x0C), (CHR ''n'', CHR 0x0A), (CHR ''r'', CHR 0x0D), (CHR ''t'', CHR 0x09)] e"

definition lex_escape :: "string \<Rightarrow> (char option \<times> string) option" where
  \<comment> \<open>after a backslash: the character it stands for (\<open>None\<close> when it is no byte) and
      the rest; \<open>None\<close> is a lexical error\<close>
  "lex_escape cs =
     (case cs of
        [] \<Rightarrow> None
      | e # es \<Rightarrow>
          if e = CHR ''u'' then
            (if length es < 4 then None
             else (case hex4 (es ! 0) (es ! 1) (es ! 2) (es ! 3) of
                     None \<Rightarrow> None
                   | Some n \<Rightarrow> Some (if n < 256 then Some (char_of n) else None, drop 4 es)))
          else map_option (\<lambda>ch. (Some ch, es)) (unescape_char e))"

lemma lex_escape_length: "lex_escape cs = Some (ch, rest) \<Longrightarrow> length rest < length cs"
proof (cases cs)
  case Nil
  assume "lex_escape cs = Some (ch, rest)"
  with Nil show ?thesis by (simp add: lex_escape_def)
next
  case (Cons e es)
  assume a: "lex_escape cs = Some (ch, rest)"
  show ?thesis
  proof (cases "e = CHR ''u''")
    case True
    with a Cons have "rest = drop 4 es"
      by (simp add: lex_escape_def split: if_splits option.splits)
    with Cons show ?thesis by simp
  next
    case False
    with a Cons have "rest = es"
      by (auto simp: lex_escape_def)
    with Cons show ?thesis by simp
  qed
qed

definition snoc_opt :: "string option \<Rightarrow> char option \<Rightarrow> string option" where
  "snoc_opt acc ch =
     (case (acc, ch) of (Some a, Some c) \<Rightarrow> Some (a @ [c]) | _ \<Rightarrow> None)"

function lex_string :: "string option \<Rightarrow> string \<Rightarrow> (string option \<times> string) option" where
  \<comment> \<open>after the opening quote: the characters read so far, then the string and the rest
      after the closing quote; \<open>None\<close> is a lexical error\<close>
  "lex_string acc [] = None"
| "lex_string acc (c # cs) =
     (if c = CHR 0x22 then Some (acc, cs)
      else if c = CHR 0x5C then
        (case lex_escape cs of
           None \<Rightarrow> None
         | Some (ch, rest) \<Rightarrow> lex_string (snoc_opt acc ch) rest)
      else if is_control c then None
      else lex_string (snoc_opt acc (Some c)) cs)"
  by pat_completeness simp_all
termination
proof (relation "measure (\<lambda>(acc, s). length s)", goal_cases)
  case 1
  show ?case by simp
next
  case (2 acc c cs p ch rest)
  then have "lex_escape cs = Some (ch, rest)" by simp
  then have "length rest < length cs" by (rule lex_escape_length)
  then show ?case by simp
next
  case (3 acc c cs)
  show ?case by simp
qed

definition digit_val :: "char \<Rightarrow> nat" where
  "digit_val c = (case map_of (zip ''0123456789'' [0, 1, 2, 3, 4, 5, 6, 7, 8, 9]) c of
                    None \<Rightarrow> 0 | Some d \<Rightarrow> d)"

definition nat_of_digits :: "string \<Rightarrow> nat" where
  "nat_of_digits ds = foldl (\<lambda>a c. 10 * a + digit_val c) 0 ds"

definition lex_number :: "string \<Rightarrow> (int option \<times> string) option" where
  \<comment> \<open>\<open>-? (0 | [1-9][0-9]*) (. [0-9]+)? ([eE] [+-]? [0-9]+)?\<close>\<close>
  "lex_number s =
     (let neg = (case s of c # _ \<Rightarrow> c = CHR ''-'' | [] \<Rightarrow> False);
          s1 = (if neg then tl s else s);
          ds = takeWhile is_digit s1;
          s2 = dropWhile is_digit s1;
          has_frac = (case s2 of c # _ \<Rightarrow> c = CHR ''.'' | [] \<Rightarrow> False);
          fs = (if has_frac then takeWhile is_digit (tl s2) else []);
          s3 = (if has_frac then dropWhile is_digit (tl s2) else s2);
          has_exp = (case s3 of c # _ \<Rightarrow> c = CHR ''e'' \<or> c = CHR ''E'' | [] \<Rightarrow> False);
          s4 = (if has_exp then tl s3 else s3);
          s5 = (case s4 of c # r \<Rightarrow> if has_exp \<and> (c = CHR ''+'' \<or> c = CHR ''-'') then r else s4
                | [] \<Rightarrow> s4);
          es = (if has_exp then takeWhile is_digit s5 else []);
          s6 = (if has_exp then dropWhile is_digit s5 else s5)
      in if ds = [] \<or> (length ds > 1 \<and> hd ds = CHR ''0'') then None
         else if has_frac \<and> fs = [] then None
         else if has_exp \<and> es = [] then None
         else if has_frac \<or> has_exp then Some (None, s6)
         else Some (Some (if neg then - int (nat_of_digits ds) else int (nat_of_digits ds)), s6))"

lemma lex_string_length: "lex_string acc s = Some (r, rest) \<Longrightarrow> length rest < length s"
proof (induction acc s rule: lex_string.induct)
  case (1 acc)
  then show ?case by simp
next
  case (2 acc c cs)
  show ?case
  proof (cases "c = CHR 0x22")
    case True
    with "2.prems" show ?thesis by simp
  next
    case nq: False
    show ?thesis
    proof (cases "c = CHR 0x5C")
      case True
      with nq "2.prems" obtain ch rest' where
        e: "lex_escape cs = Some (ch, rest')" and
        r: "lex_string (snoc_opt acc ch) rest' = Some (r, rest)"
        by (auto split: option.splits)
      from "2.IH"(1) [OF nq True e refl r] have "length rest < length rest'" .
      moreover from e have "length rest' < length cs" by (rule lex_escape_length)
      ultimately show ?thesis by simp
    next
      case False
      with nq "2.prems" have lt: "\<not> is_control c" and
        r: "lex_string (snoc_opt acc (Some c)) cs = Some (r, rest)"
        by (auto split: if_splits)
      from "2.IH"(2) [OF nq False lt r] show ?thesis by simp
    qed
  qed
qed

lemma lex_number_length: "lex_number s = Some (r, rest) \<Longrightarrow> length rest < length s"
proof -
  have le: "length (dropWhile P xs) \<le> length xs" for P and xs :: string
    by (rule length_dropWhile_le)
  have tw: "takeWhile P xs \<noteq> [] \<Longrightarrow> length (dropWhile P xs) < length xs" for P and xs :: string
    by (cases xs) (auto simp: le_imp_less_Suc length_dropWhile_le split: if_splits)
  assume a: "lex_number s = Some (r, rest)"
  define neg where "neg = (case s of c # _ \<Rightarrow> c = CHR ''-'' | [] \<Rightarrow> False)"
  define s1 where "s1 = (if neg then tl s else s)"
  define s2 where "s2 = dropWhile is_digit s1"
  define has_frac where "has_frac = (case s2 of c # _ \<Rightarrow> c = CHR ''.'' | [] \<Rightarrow> False)"
  define s3 where "s3 = (if has_frac then dropWhile is_digit (tl s2) else s2)"
  define has_exp where "has_exp = (case s3 of c # _ \<Rightarrow> c = CHR ''e'' \<or> c = CHR ''E'' | [] \<Rightarrow> False)"
  define s4 where "s4 = (if has_exp then tl s3 else s3)"
  define s5 where "s5 = (case s4 of c # r \<Rightarrow> if has_exp \<and> (c = CHR ''+'' \<or> c = CHR ''-'') then r else s4
                | [] \<Rightarrow> s4)"
  define s6 where "s6 = (if has_exp then dropWhile is_digit s5 else s5)"
  from a have ds: "takeWhile is_digit s1 \<noteq> []" and rest: "rest = s6"
    unfolding lex_number_def Let_def neg_def s1_def s2_def has_frac_def s3_def has_exp_def
      s4_def s5_def s6_def
    by (auto split: if_splits)
  have "length s1 \<le> length s" by (simp add: s1_def)
  moreover have "length s2 < length s1" unfolding s2_def using ds by (rule tw)
  moreover have "length s3 \<le> length s2"
    unfolding s3_def using le [of is_digit "tl s2"] by (auto simp: less_imp_le)
  moreover have "length s4 \<le> length s3" by (simp add: s4_def)
  moreover have "length s5 \<le> length s4" by (auto simp: s5_def split: list.splits)
  moreover have "length s6 \<le> length s5" unfolding s6_def using le [of is_digit s5] by auto
  ultimately show ?thesis unfolding rest by linarith
qed

definition is_json_ws :: "char \<Rightarrow> bool" where
  "is_json_ws c = (c = CHR '' '' \<or> c = CHR 0x09 \<or> c = CHR 0x0A \<or> c = CHR 0x0D)"

definition punct_token :: "char \<Rightarrow> token option" where
  "punct_token c = map_of
     [(CHR ''{'', TLBrace), (CHR ''}'', TRBrace), (CHR ''['', TLBrack), (CHR '']'', TRBrack),
      (CHR '':'', TColon), (CHR '','', TComma)] c"

definition lex_keyword :: "string \<Rightarrow> (token \<times> string) option" where
  "lex_keyword s =
     (if startsWith s ''true'' then Some (TTrue, drop 4 s)
      else if startsWith s ''false'' then Some (TFalse, drop 5 s)
      else if startsWith s ''null'' then Some (TNull, drop 4 s)
      else None)"

definition next_token :: "string \<Rightarrow> (token \<times> string) option" where
  "next_token s =
     (case s of
        [] \<Rightarrow> None
      | c # cs \<Rightarrow>
          (case punct_token c of
             Some t \<Rightarrow> Some (t, cs)
           | None \<Rightarrow>
               if c = CHR 0x22 then
                 map_option (\<lambda>(str, rest). (TStr str, rest)) (lex_string (Some []) cs)
               else if c = CHR ''-'' \<or> is_digit c then
                 map_option (\<lambda>(n, rest). (TNum n, rest)) (lex_number s)
               else lex_keyword s))"

lemma startsWith_drop: "startsWith s p \<Longrightarrow> p \<noteq> [] \<Longrightarrow> length (drop (length p) s) < length s"
proof -
  assume a: "startsWith s p" and b: "p \<noteq> []"
  from a have "length (take (length p) s) = length p" by (simp add: startsWith_take)
  then have "length p \<le> length s" by simp
  with b show ?thesis by (cases p) auto
qed

lemma lex_keyword_length: "lex_keyword s = Some (t, rest) \<Longrightarrow> length rest < length s"
proof -
  assume a: "lex_keyword s = Some (t, rest)"
  have t: "length (drop 4 s) < length s" if "startsWith s ''true''"
    using startsWith_drop [OF that] by simp
  have f: "length (drop 5 s) < length s" if "startsWith s ''false''"
    using startsWith_drop [OF that] by simp
  have n: "length (drop 4 s) < length s" if "startsWith s ''null''"
    using startsWith_drop [OF that] by simp
  show ?thesis
  proof (cases "startsWith s ''true''")
    case True
    with a have "rest = drop 4 s" by (simp add: lex_keyword_def)
    with t [OF True] show ?thesis by simp
  next
    case nt: False
    show ?thesis
    proof (cases "startsWith s ''false''")
      case True
      with a nt have "rest = drop 5 s" by (simp add: lex_keyword_def)
      with f [OF True] show ?thesis by simp
    next
      case nf: False
      show ?thesis
      proof (cases "startsWith s ''null''")
        case True
        with a nt nf have "rest = drop 4 s" by (simp add: lex_keyword_def)
        with n [OF True] show ?thesis by simp
      next
        case False
        with a nt nf show ?thesis by (simp add: lex_keyword_def)
      qed
    qed
  qed
qed

lemma next_token_length: "next_token s = Some (t, rest) \<Longrightarrow> length rest < length s"
proof (cases s)
  case Nil
  assume "next_token s = Some (t, rest)"
  with Nil show ?thesis by (simp add: next_token_def)
next
  case (Cons c cs)
  assume a: "next_token s = Some (t, rest)"
  show ?thesis
  proof (cases "punct_token c")
    case (Some u)
    with a Cons have "rest = cs" by (simp add: next_token_def)
    with Cons show ?thesis by simp
  next
    case None
    show ?thesis
    proof (cases "c = CHR 0x22")
      case True
      with a Cons None obtain r where "lex_string (Some []) cs = Some (r, rest)"
        by (auto simp: next_token_def)
      then have "length rest < length cs" by (rule lex_string_length)
      with Cons show ?thesis by simp
    next
      case nq: False
      show ?thesis
      proof (cases "c = CHR ''-'' \<or> is_digit c")
        case True
        with a None nq obtain n where "lex_number s = Some (n, rest)"
          unfolding next_token_def Cons by auto
        then show ?thesis by (rule lex_number_length)
      next
        case False
        with a None nq have "lex_keyword s = Some (t, rest)"
          unfolding next_token_def Cons by auto
        then show ?thesis by (rule lex_keyword_length)
      qed
    qed
  qed
qed

function lex :: "string \<Rightarrow> token list option" where
  "lex s =
     (let s' = dropWhile is_json_ws s
      in if s' = [] then Some []
         else (case next_token s' of
                 None \<Rightarrow> None
               | Some (t, rest) \<Rightarrow> map_option ((#) t) (lex rest)))"
  by pat_completeness simp_all
termination
proof (relation "measure length", goal_cases)
  case 1
  show ?case by simp
next
  case (2 s s' p t rest)
  have a: "length (dropWhile is_json_ws s) \<le> length s" by (rule length_dropWhile_le)
  from 2 have b: "next_token s' = Some (t, rest)" by simp
  have c: "length rest < length s'" using b by (rule next_token_length)
  from 2 have d: "s' = dropWhile is_json_ws s" by simp
  have "length rest < length s" using a c unfolding d by linarith
  then show ?case by simp
qed

declare lex.simps [simp del]

datatype frame = FArr "jsval list" | FObj "(string \<times> jsval) list" "string option"

datatype expect =
    EValue | EValueOrClose | EKey | EKeyOrClose | EColon | ECommaOrClose | EEnd jsval

fun obj_set :: "(string \<times> jsval) list \<Rightarrow> string \<Rightarrow> jsval \<Rightarrow> (string \<times> jsval) list" where
  \<comment> \<open>a repeated key keeps its place and takes the later value\<close>
  "obj_set [] k v = [(k, v)]"
| "obj_set ((k', v') # ms) k v = (if k' = k then (k, v) # ms else (k', v') # obj_set ms k v)"

fun deliver :: "jsval \<Rightarrow> frame list \<Rightarrow> (expect \<times> frame list) option" where
  "deliver v [] = Some (EEnd v, [])"
| "deliver v (FArr xs # st) = Some (ECommaOrClose, FArr (xs @ [v]) # st)"
| "deliver v (FObj ms (Some k) # st) = Some (ECommaOrClose, FObj (obj_set ms k v) None # st)"
| "deliver v (FObj ms None # st) = None"

definition the_str :: "string option \<Rightarrow> string" where
  "the_str s = (case s of None \<Rightarrow> [] | Some x \<Rightarrow> x)"

definition the_num :: "int option \<Rightarrow> int" where
  "the_num n = (case n of None \<Rightarrow> 0 | Some x \<Rightarrow> x)"

fun parse_step :: "expect \<times> frame list \<Rightarrow> token \<Rightarrow> (expect \<times> frame list) option" where
  "parse_step (EEnd v, st) t = None"
| "parse_step (EColon, st) t = (case t of TColon \<Rightarrow> Some (EValue, st) | _ \<Rightarrow> None)"
| "parse_step (ECommaOrClose, st) t =
     (case (t, st) of
        (TComma, FArr xs # st') \<Rightarrow> Some (EValue, st)
      | (TComma, FObj ms None # st') \<Rightarrow> Some (EKey, st)
      | (TRBrack, FArr xs # st') \<Rightarrow> deliver (Arr xs) st'
      | (TRBrace, FObj ms None # st') \<Rightarrow> deliver (Obj ms) st'
      | _ \<Rightarrow> None)"
| "parse_step (EKey, st) t =
     (case (t, st) of
        (TStr k, FObj ms None # st') \<Rightarrow> Some (EColon, FObj ms (Some (the_str k)) # st')
      | _ \<Rightarrow> None)"
| "parse_step (EKeyOrClose, st) t =
     (case (t, st) of
        (TStr k, FObj ms None # st') \<Rightarrow> Some (EColon, FObj ms (Some (the_str k)) # st')
      | (TRBrace, FObj ms None # st') \<Rightarrow> deliver (Obj ms) st'
      | _ \<Rightarrow> None)"
| "parse_step (e, st) t =
     (case t of
        TStr x \<Rightarrow> deliver (Str (the_str x)) st
      | TNum n \<Rightarrow> deliver (Num (the_num n)) st
      | TTrue \<Rightarrow> deliver (Bool True) st
      | TFalse \<Rightarrow> deliver (Bool False) st
      | TNull \<Rightarrow> deliver Null st
      | TLBrack \<Rightarrow> Some (EValueOrClose, FArr [] # st)
      | TLBrace \<Rightarrow> Some (EKeyOrClose, FObj [] None # st)
      | TRBrack \<Rightarrow>
          (case (e, st) of (EValueOrClose, FArr xs # st') \<Rightarrow> deliver (Arr xs) st' | _ \<Rightarrow> None)
      | _ \<Rightarrow> None)"

fun parse_tokens :: "expect \<times> frame list \<Rightarrow> token list \<Rightarrow> jsval option" where
  "parse_tokens (e, st) [] = (case e of EEnd v \<Rightarrow> Some v | _ \<Rightarrow> None)"
| "parse_tokens (e, st) (t # ts) =
     (case parse_step (e, st) t of None \<Rightarrow> None | Some c \<Rightarrow> parse_tokens c ts)"

definition unsupported_token :: "token \<Rightarrow> bool" where
  "unsupported_token t = (case t of TStr None \<Rightarrow> True | TNum None \<Rightarrow> True | _ \<Rightarrow> False)"

definition JSON_parse :: "string \<Rightarrow> error + jsval" where
  "JSON_parse s =
     (case lex s of
        None \<Rightarrow> Inl SyntaxError
      | Some ts \<Rightarrow>
          (case parse_tokens (EValue, []) ts of
             None \<Rightarrow> Inl SyntaxError
           | Some v \<Rightarrow> if list_ex unsupported_token ts then Inl Unsupported else Inr v))"


section \<open>The attribute codec\<close>

definition jsonToEscapedString :: "jsval \<Rightarrow> error + string" where
  \<comment> \<open>\<open>JSON.stringify(undefined)\<close> is \<open>undefined\<close>, and \<open>.replace\<close> on it raises\<close>
  "jsonToEscapedString json =
     (case JSON_stringify json of
        None \<Rightarrow> Inl TypeError
      | Some t \<Rightarrow>
          Inr (replaceAll ''}'' ''&#125;''
                (replaceAll ''{'' ''&#123;''
                  (replaceAll '':'' ''&#58;''
                    (replaceAll [CHR 0x22] ''&quot;'' t)))))"

definition unescape :: "string \<Rightarrow> string" where
  "unescape escapedString =
     replaceAll ''&#125;'' ''}''
       (replaceAll ''&#123;'' ''{''
         (replaceAll ''&#58;'' '':''
           (replaceAll ''&quot;'' [CHR 0x22] escapedString)))"

definition escapedStringToJson :: "string option \<Rightarrow> error + jsval" where
  \<comment> \<open>\<open>None\<close> is an \<open>undefined\<close> argument\<close>
  "escapedStringToJson escapedString =
     (case escapedString of
        None \<Rightarrow> Inl TypeError
      | Some e \<Rightarrow> JSON_parse (unescape e))"

section \<open>The page tree\<close>

text \<open>
  The classes of the source as records. A field that the source fills from parsed JSON
  holds a \<open>jsval\<close>. The back references \<open>control.column\<close> and \<open>column.section\<close> are
  not fields: in a tree they point to the owner, which the functions below take as an
  argument. The \<open>id\<close> of a column is never read and is left out.
\<close>

record CanvasControl =
  controlType :: jsval
  dataVersion :: jsval
  order :: jsval
  controlData :: jsval

record ClientSideText = CanvasControl +
  text_id :: jsval
  the_text :: string

record ClientSideWebpart = CanvasControl +
  webpart_id :: jsval
  title :: jsval
  description :: jsval
  propertieJson :: jsval
  webPartId :: jsval
  htmlProperties :: string
  serverProcessedContent :: jsval

datatype control = Text ClientSideText | Webpart ClientSideWebpart

record CanvasColumn = CanvasControl +
  factor :: jsval
  controls :: "control list"

record CanvasSection =
  section_order :: jsval
  columns :: "CanvasColumn list"

record ClientSidePage =
  sections :: "CanvasSection list"
  commentsDisabled :: bool

definition new_CanvasSection :: "jsval \<Rightarrow> CanvasSection" where
  "new_CanvasSection ord = \<lparr>section_order = ord, columns = []\<rparr>"

definition new_CanvasColumn :: "jsval \<Rightarrow> jsval \<Rightarrow> CanvasColumn" where
  \<comment> \<open>\<open>new CanvasColumn(section, order, factor)\<close>\<close>
  "new_CanvasColumn ord fac =
     \<lparr>controlType = Num 0, dataVersion = Str ''1.0'', order = ord, controlData = Null,
      factor = fac, controls = []\<rparr>"

definition set_text :: "string \<Rightarrow> string" where
  \<comment> \<open>the setter of \<open>text\<close>: the value that is stored\<close>
  "set_text t = (if \<not> startsWith t ''<p>'' then ''<p>'' @ t @ ''</p>'' else t)"

definition new_ClientSideText :: "jsval \<Rightarrow> string \<Rightarrow> ClientSideText" where
  \<comment> \<open>\<open>new ClientSideText(text)\<close>; the first argument is the GUID drawn for \<open>id\<close>\<close>
  "new_ClientSideText guid t =
     \<lparr>controlType = Num 4, dataVersion = Str ''1.0'', order = Num 1, controlData = Null,
      text_id = guid, the_text = set_text t\<rparr>"

definition new_ClientSideWebpart :: "jsval \<Rightarrow> jsval \<Rightarrow> ClientSideWebpart" where
  \<comment> \<open>\<open>new ClientSideWebpart(title)\<close>\<close>
  "new_ClientSideWebpart guid ttl =
     \<lparr>controlType = Num 3, dataVersion = Str ''1.0'', order = Num 1, controlData = Null,
      webpart_id = guid, title = ttl, description = Str [], propertieJson = Obj [],
      webPartId = Str [], htmlProperties = [], serverProcessedContent = Null\<rparr>"

subsection \<open>Reindexing\<close>

text \<open>
  \<open>reindex\<close> of the source is one function that recurses into \<open>columns\<close> where the
  element has such a property and else into \<open>controls\<close>: sections have the first,
  columns the second, a text or web part neither.
\<close>

definition set_control_order :: "jsval \<Rightarrow> control \<Rightarrow> control" where
  "set_control_order v c =
     (case c of Text t \<Rightarrow> Text (t\<lparr>order := v\<rparr>) | Webpart w \<Rightarrow> Webpart (w\<lparr>order := v\<rparr>))"

definition control_order :: "control \<Rightarrow> jsval" where
  "control_order c = (case c of Text t \<Rightarrow> order t | Webpart w \<Rightarrow> order w)"

definition reindex_controls :: "control list \<Rightarrow> control list" where
  "reindex_controls collection =
     map (\<lambda>(i, c). set_control_order (Num (int i + 1)) c) (enumerate 0 collection)"

definition reindex_columns :: "CanvasColumn list \<Rightarrow> CanvasColumn list" where
  "reindex_columns collection =
     map (\<lambda>(i, c). c\<lparr>order := Num (int i + 1), controls := reindex_controls (controls c)\<rparr>)
       (enumerate 0 collection)"

definition reindex :: "CanvasSection list \<Rightarrow> CanvasSection list" where
  "reindex collection =
     map (\<lambda>(i, s). s\<lparr>section_order := Num (int i + 1), columns := reindex_columns (columns s)\<rparr>)
       (enumerate 0 collection)"


subsection \<open>Rendering\<close>

definition ebind :: "error + 'a \<Rightarrow> ('a \<Rightarrow> error + 'b) \<Rightarrow> error + 'b" where
  "ebind m f = (case m of Inl e \<Rightarrow> Inl e | Inr x \<Rightarrow> f x)"



















subsection \<open>Parsing\<close>

definition of_opt_string :: "string option \<Rightarrow> jsval" where
  "of_opt_string x = (case x of None \<Rightarrow> Undefined | Some v \<Rightarrow> Str v)"

definition CanvasControl_fromHtml ::
  "string \<Rightarrow> 'a CanvasControl_scheme \<Rightarrow> error + 'a CanvasControl_scheme \<times> jsval" where
  \<comment> \<open>\<open>CanvasControl.fromHtml\<close>: the control with its fields set, and the value for \<open>id\<close>\<close>
  "CanvasControl_fromHtml html c =
     ebind (getAttrValueFromString html ''data-sp-controldata'') (\<lambda>a.
     ebind (escapedStringToJson a) (\<lambda>cd.
     ebind (getAttrValueFromString html ''data-sp-canvasdataversion'') (\<lambda>dv.
     ebind (get_prop cd ''controlType'') (\<lambda>ct.
     ebind (get_prop cd ''id'') (\<lambda>i.
       Inr (c\<lparr>controlData := cd, dataVersion := of_opt_string dv, controlType := ct\<rparr>, i))))))"

definition CanvasColumn_fromHtml :: "string \<Rightarrow> CanvasColumn \<Rightarrow> error + CanvasColumn" where
  "CanvasColumn_fromHtml html col0 =
     ebind (CanvasControl_fromHtml html col0) (\<lambda>(col, i).
     ebind (getAttrValueFromString html ''data-sp-controldata'') (\<lambda>a.
     ebind (escapedStringToJson a) (\<lambda>cd.
     ebind (get_prop cd ''position'') (\<lambda>pos.
     ebind (get_prop pos ''sectionFactor'') (\<lambda>f.
     ebind (get_prop pos ''sectionIndex'') (\<lambda>si.
       Inr (col\<lparr>controlData := cd, factor := f, order := si\<rparr>)))))))"

definition rte_regex :: regex where
  \<comment> \<open>\<open>/<div[^>]*data-sp-rte[^>]*>(.*?)<\/div>/i\<close>\<close>
  "rte_regex =
     lit_i ''<div'' @ [Star (NotChar CHR ''>'')] @ lit_i ''data-sp-rte'' @
     [Star (NotChar CHR ''>''), Chr (Exact CHR ''>''), GroupOpen, StarLazy Dot, GroupClose] @
     lit_i ''</div>''"

definition ClientSideText_fromHtml :: "string \<Rightarrow> ClientSideText \<Rightarrow> error + ClientSideText" where
  \<comment> \<open>\<open>match.length\<close> on a \<open>null\<close> match raises a TypeError; the array of a match
      has length 2, so the setter of \<open>text\<close> gets element 1\<close>
  "ClientSideText_fromHtml html t0 =
     ebind (CanvasControl_fromHtml html t0) (\<lambda>(t, i).
       case rx_exec rte_regex html of
         None \<Rightarrow> Inl TypeError
       | Some (m0, m1) \<Rightarrow>
           (case m1 of
              None \<Rightarrow> Inl TypeError
            | Some txt \<Rightarrow> Inr (t\<lparr>text_id := i, the_text := set_text txt\<rparr>)))"

definition htmlproperties_regex :: regex where
  \<comment> \<open>\<open>/<div\b[^>]*data-sp-htmlproperties[^>]*?>/i\<close>\<close>
  "htmlproperties_regex =
     lit_i ''<div'' @ [WordBoundary, Star (NotChar CHR ''>'')] @ lit_i ''data-sp-htmlproperties'' @
     [StarLazy (NotChar CHR ''>''), Chr (Exact CHR ''>'')]"

definition replace_first :: "regex \<Rightarrow> string \<Rightarrow> string \<Rightarrow> string" where
  \<comment> \<open>\<open>s.replace(re, rep)\<close> for a pattern without the \<open>g\<close> flag\<close>
  "replace_first re rep s =
     (case rx_search re None s 0 of
        None \<Rightarrow> s
      | Some (k, e, g) \<Rightarrow> take k s @ rep @ drop (k + e) s)"

definition htmlproperties_collector :: "(string, unit) collector" where
  "htmlproperties_collector markup u =
     Some (Inr (replace_first (lit_i ''</div>'' @ [Eol]) []
                  (replace_first (Bol # htmlproperties_regex) [] markup), u))"

definition ClientSideWebpart_fromHtml ::
  "string \<Rightarrow> ClientSideWebpart \<Rightarrow> (error + ClientSideWebpart) option" where
  "ClientSideWebpart_fromHtml html w0 =
     (case
        ebind (CanvasControl_fromHtml html w0) (\<lambda>(w, i).
        ebind (getAttrValueFromString html ''data-sp-webpartdata'') (\<lambda>a.
        ebind (escapedStringToJson a) (\<lambda>webPartData.
        ebind (get_prop webPartData ''title'') (\<lambda>ttl.
        ebind (get_prop webPartData ''description'') (\<lambda>descr.
        ebind (get_prop webPartData ''id'') (\<lambda>wid.
        ebind (get_prop webPartData ''properties'') (\<lambda>props.
        ebind (get_prop webPartData ''serverProcessedContent'') (\<lambda>spc.
          Inr (w\<lparr>webpart_id := i, title := ttl, description := descr, webPartId := wid,
                 propertieJson := props,
                 serverProcessedContent :=
                   (case spc of Undefined \<Rightarrow> serverProcessedContent w | _ \<Rightarrow> spc)\<rparr>)))))))))
      of
        Inl e \<Rightarrow> Some (Inl e)
      | Inr w \<Rightarrow>
          (case getBoundedDivMarkup (Some html) htmlproperties_regex htmlproperties_collector () of
             None \<Rightarrow> None
           | Some (Inl e) \<Rightarrow> Some (Inl e)
           | Some (Inr (htmlProps, u)) \<Rightarrow>
               Some (Inr (w\<lparr>htmlProperties := (case htmlProps of [] \<Rightarrow> [] | h # _ \<Rightarrow> h)\<rparr>))))"

subsection \<open>The tree reconciler\<close>

fun update_first :: "('a \<Rightarrow> bool) \<Rightarrow> ('a \<Rightarrow> 'a) \<Rightarrow> 'a list \<Rightarrow> 'a list" where
  \<comment> \<open>the mutation of \<open>xs.filter(p)[0]\<close> in place\<close>
  "update_first p f [] = []"
| "update_first p f (x # xs) = (if p x then f x # xs else x # update_first p f xs)"

definition addControl :: "control \<Rightarrow> CanvasColumn \<Rightarrow> CanvasColumn" where
  "addControl c col = col\<lparr>controls := controls col @ [c]\<rparr>"

definition control_controlData :: "control \<Rightarrow> jsval" where
  "control_controlData c = (case c of Text t \<Rightarrow> controlData t | Webpart w \<Rightarrow> controlData w)"

definition merge_into_section :: "jsval \<Rightarrow> control \<Rightarrow> CanvasSection \<Rightarrow> CanvasSection" where
  \<comment> \<open>the second half of \<open>mergeControlToTree\<close>: the column of the section found or made\<close>
  "merge_into_section sectionIndex c sec =
     (if length (filter (\<lambda>col. strict_eq (order col) sectionIndex) (columns sec)) < 1
      then sec\<lparr>columns := columns sec @ [addControl c (new_CanvasColumn sectionIndex (Num 12))]\<rparr>
      else sec\<lparr>columns :=
             update_first (\<lambda>col. strict_eq (order col) sectionIndex) (addControl c) (columns sec)\<rparr>)"

definition mergeControlToTree :: "CanvasSection list \<Rightarrow> control \<Rightarrow> error + CanvasSection list" where
  "mergeControlToTree secs c =
     ebind (get_prop (control_controlData c) ''position'') (\<lambda>pos.
     ebind (get_prop pos ''zoneIndex'') (\<lambda>zoneIndex.
     ebind (get_prop pos ''sectionIndex'') (\<lambda>sectionIndex.
       Inr (if length (filter (\<lambda>s. strict_eq (section_order s) zoneIndex) secs) < 1
            then secs @ [merge_into_section sectionIndex c (new_CanvasSection zoneIndex)]
            else update_first (\<lambda>s. strict_eq (section_order s) zoneIndex)
                   (merge_into_section sectionIndex c) secs))))"

definition mergeColumnToTree :: "CanvasSection list \<Rightarrow> CanvasColumn \<Rightarrow> error + CanvasSection list" where
  "mergeColumnToTree secs column =
     ebind (get_prop (controlData column) ''position'') (\<lambda>pos.
     ebind (get_prop pos ''zoneIndex'') (\<lambda>zoneIndex.
       Inr (if length (filter (\<lambda>s. strict_eq (section_order s) zoneIndex) secs) < 1
            then secs @ [(new_CanvasSection zoneIndex)\<lparr>columns := [column]\<rparr>]
            else update_first (\<lambda>s. strict_eq (section_order s) zoneIndex)
                   (\<lambda>s. s\<lparr>columns := columns s @ [column]\<rparr>) secs)))"

subsection \<open>\<open>ClientSidePage.fromHtml\<close>\<close>

definition canvascontrol_regex :: regex where
  \<comment> \<open>\<open>/<div\b[^>]*data-sp-canvascontrol[^>]*?>/i\<close>\<close>
  "canvascontrol_regex =
     lit_i ''<div'' @ [WordBoundary, Star (NotChar CHR ''>'')] @ lit_i ''data-sp-canvascontrol'' @
     [StarLazy (NotChar CHR ''>''), Chr (Exact CHR ''>'')]"

definition controlType_regex :: regex where
  \<comment> \<open>\<open>/controlType&quot;&#58;(\d*?),/i\<close>\<close>
  "controlType_regex =
     lit_i ''controlType&quot;&#58;'' @ [GroupOpen, StarLazy Digit, GroupClose, Chr (Exact CHR '','')]"

definition parseInt :: "string option \<Rightarrow> int option" where
  \<comment> \<open>\<open>parseInt(s, 10)\<close> for a string of decimal digits; \<open>None\<close> is \<open>NaN\<close>\<close>
  "parseInt x =
     (case x of
        None \<Rightarrow> None
      | Some ds \<Rightarrow> if ds = [] then None else Some (int (nat_of_digits ds)))"

definition fragment_controlType :: "string \<Rightarrow> int option" where
  \<comment> \<open>the discriminant that the \<open>switch\<close> of \<open>fromHtml\<close> tests\<close>
  "fragment_controlType markup =
     (case rx_exec controlType_regex markup of
        None \<Rightarrow> Some 0
      | Some (m0, m1) \<Rightarrow> parseInt m1)"

definition fromHtml_collector :: "jsval \<Rightarrow> (unit, CanvasSection list \<times> int) collector" where
  \<comment> \<open>The callback of \<open>fromHtml\<close>; its state is \<open>this.sections\<close> and \<open>counter\<close>. The
      GUID that a constructor draws for \<open>id\<close> is the first argument.\<close>
  "fromHtml_collector guid markup st =
     (let secs = fst st; counter = snd st; controlType = fragment_controlType markup
      in if controlType = Some 0 then
           Some (ebind (CanvasColumn_fromHtml markup (new_CanvasColumn (Num 0) (Num 12))) (\<lambda>col.
                 ebind (mergeColumnToTree secs col) (\<lambda>secs'. Inr ((), (secs', counter)))))
         else if controlType = Some 3 then
           (case ClientSideWebpart_fromHtml markup
                   ((new_ClientSideWebpart guid (Str []))\<lparr>order := Num (counter + 1)\<rparr>) of
              None \<Rightarrow> None
            | Some r \<Rightarrow>
                Some (ebind r (\<lambda>w.
                      ebind (mergeControlToTree secs (Webpart w)) (\<lambda>secs'.
                        Inr ((), (secs', counter + 1))))))
         else if controlType = Some 4 then
           Some (ebind (ClientSideText_fromHtml markup
                          ((new_ClientSideText guid [])\<lparr>order := Num (counter + 1)\<rparr>)) (\<lambda>t.
                 ebind (mergeControlToTree secs (Text t)) (\<lambda>secs'.
                   Inr ((), (secs', counter + 1)))))
         else Some (Inr ((), st)))"

definition fromHtml :: "jsval \<Rightarrow> ClientSidePage \<Rightarrow> string option \<Rightarrow> (error + ClientSidePage) option" where
  \<comment> \<open>\<open>None\<close> when the scanner never returns\<close>
  "fromHtml guid page html =
     (case getBoundedDivMarkup html canvascontrol_regex (fromHtml_collector guid) ([], 0) of
        None \<Rightarrow> None
      | Some (Inl e) \<Rightarrow> Some (Inl e)
      | Some (Inr (blocks, (secs, counter))) \<Rightarrow> Some (Inr (page\<lparr>sections := secs\<rparr>)))"

section \<open>Properties\<close>

subsection \<open>Paragraph wrapping of a text control\<close>

definition endsWith :: "string \<Rightarrow> string \<Rightarrow> bool" where
  "endsWith s p = (drop (length s - length p) s = p)"

definition paragraph_wrapped :: "string \<Rightarrow> bool" where
  \<comment> \<open>the words of the specification: the text has the form \<open><p>...</p>\<close>\<close>
  "paragraph_wrapped s = (startsWith s ''<p>'' \<and> endsWith s ''</p>'')"

theorem text_setter_prefix_only:
  "(\<not> startsWith t ''<p>'' \<longrightarrow>
      the_text (new_ClientSideText guid t) = ''<p>'' @ t @ ''</p>'' \<and>
      set_text t = ''<p>'' @ t @ ''</p>'') \<and>
   (startsWith t ''<p>'' \<longrightarrow>
      the_text (new_ClientSideText guid t) = t \<and> set_text t = t)"
  by (simp add: new_ClientSideText_def set_text_def)

theorem text_setter_prefix_only_witness:
  "\<not> startsWith ''Hello'' ''<p>'' \<and> set_text ''Hello'' = ''<p>Hello</p>'' \<and>
   startsWith ''<p>Hello'' ''<p>'' \<and> set_text ''<p>Hello'' = ''<p>Hello''"
  using text_setter_prefix_only [of "''Hello''" Null] text_setter_prefix_only [of "''<p>Hello''" Null]
  by simp

theorem text_setter_unclosed_counterexample:
  "\<not> paragraph_wrapped ''<p>Hello'' \<and>
   the_text (new_ClientSideText Null ''<p>Hello'') = ''<p>Hello'' \<and>
   \<not> paragraph_wrapped (the_text (new_ClientSideText Null ''<p>Hello''))"
  by (simp add: paragraph_wrapped_def endsWith_def new_ClientSideText_def set_text_def)

subsection \<open>Reindexing\<close>




lemma control_order_set [simp]: "control_order (set_control_order v c) = v"
  by (cases c) (simp_all add: control_order_def set_control_order_def)

lemma length_reindex_controls [simp]: "length (reindex_controls cs) = length cs"
  by (simp add: reindex_controls_def)

lemma length_reindex_columns [simp]: "length (reindex_columns cs) = length cs"
  by (simp add: reindex_columns_def)

lemma length_reindex [simp]: "length (reindex ss) = length ss"
  by (simp add: reindex_def)

















subsection \<open>Attributes that are absent\<close>

theorem getAttrValue_absent_raises:
  "(rx_exec (attr_regex attrName) html = None \<longrightarrow>
      getAttrValueFromString html attrName = Inl TypeError) \<and>
   (rx_exec (attr_regex ''data-sp-controldata'') html = None \<longrightarrow>
      CanvasControl_fromHtml html c = Inl TypeError \<and>
      CanvasColumn_fromHtml html col = Inl TypeError \<and>
      ClientSideText_fromHtml html t = Inl TypeError \<and>
      ClientSideWebpart_fromHtml html w = Some (Inl TypeError))"
  by (simp add: getAttrValueFromString_def CanvasControl_fromHtml_def CanvasColumn_fromHtml_def
        ClientSideText_fromHtml_def ClientSideWebpart_fromHtml_def ebind_def)

definition fragment_without_controldata :: string where
  "fragment_without_controldata =
     ''<div data-sp-canvascontrol=\"\" data-sp-canvasdataversion=\"1.0\"></div>''"

theorem getAttrValue_absent_raises_witness:
  "rx_exec (attr_regex ''data-sp-controldata'') fragment_without_controldata = None \<and>
   getAttrValueFromString fragment_without_controldata ''data-sp-controldata'' = Inl TypeError \<and>
   CanvasColumn_fromHtml fragment_without_controldata (new_CanvasColumn (Num 0) (Num 12)) =
     Inl TypeError"
proof -
  have a: "rx_exec (attr_regex ''data-sp-controldata'') fragment_without_controldata = None"
    by code_simp
  from a getAttrValue_absent_raises
    [of "''data-sp-controldata''" fragment_without_controldata
        "new_CanvasColumn (Num 0) (Num 12)" "new_CanvasColumn (Num 0) (Num 12)"
        "new_ClientSideText Null []" "new_ClientSideWebpart Null Null"]
  show ?thesis by simp
qed

subsection \<open>A text control without its content holder\<close>

definition text_fragment_without_holder :: string where
  "text_fragment_without_holder =
     ''<div data-sp-canvascontrol=\"\" data-sp-canvasdataversion=\"1.0\" data-sp-controldata=\"&#123;&quot;controlType&quot;&#58;4,&quot;id&quot;&#58;&quot;a&quot;,&quot;position&quot;&#58;&#123;&quot;controlIndex&quot;&#58;1,&quot;sectionIndex&quot;&#58;1,&quot;zoneIndex&quot;&#58;1&#125;&#125;\"></div>''"

lemma text_fromHtml_no_holder:
  "rx_exec rte_regex html = None \<Longrightarrow> isl (ClientSideText_fromHtml html t)"
  by (simp add: ClientSideText_fromHtml_def ebind_def split: sum.splits prod.splits)

lemma text_fragment_metadata:
  "map_sum id (controlData \<circ> fst)
     (CanvasControl_fromHtml text_fragment_without_holder (new_ClientSideText Null [])) =
   Inr (Obj [(''controlType'', Num 4), (''id'', Str ''a''),
             (''position'', Obj [(''controlIndex'', Num 1), (''sectionIndex'', Num 1),
                                 (''zoneIndex'', Num 1)])])"
  by code_simp

lemma text_fragment_no_holder: "rx_exec rte_regex text_fragment_without_holder = None"
  by code_simp

theorem text_fromHtml_missing_holder_raises:
  "ClientSideText_fromHtml text_fragment_without_holder (new_ClientSideText Null []) =
     Inl TypeError"
proof -
  obtain t i where "CanvasControl_fromHtml text_fragment_without_holder (new_ClientSideText Null []) = Inr (t, i)"
    using text_fragment_metadata
    by (cases "CanvasControl_fromHtml text_fragment_without_holder (new_ClientSideText Null [])") auto
  then show ?thesis
    by (simp add: ClientSideText_fromHtml_def ebind_def text_fragment_no_holder)
qed

subsection \<open>Fragments of an unknown control type\<close>

definition collect_markup :: "(string, unit) collector" where
  \<comment> \<open>the callback that only records the fragment it is given\<close>
  "collect_markup markup u = Some (Inr (markup, u))"

fun feed :: "('a, 's) collector \<Rightarrow> string list \<Rightarrow> 's \<Rightarrow> (error + 's) option" where
  \<comment> \<open>the callback run on a list of fragments in turn, up to the first that raises\<close>
  "feed collector [] st = Some (Inr st)"
| "feed collector (m # ms) st =
     (case collector m st of
        None \<Rightarrow> None
      | Some (Inl e) \<Rightarrow> Some (Inl e)
      | Some (Inr (b, st')) \<Rightarrow> feed collector ms st')"

definition fromHtml_fragments ::
  "jsval \<Rightarrow> ClientSidePage \<Rightarrow> string list \<Rightarrow> (error + ClientSidePage) option" where
  \<comment> \<open>the page that the callback of \<open>fromHtml\<close> builds from a list of fragments\<close>
  "fromHtml_fragments guid page frags =
     (case feed (fromHtml_collector guid) frags ([], 0) of
        None \<Rightarrow> None
      | Some (Inl e) \<Rightarrow> Some (Inl e)
      | Some (Inr (secs, counter)) \<Rightarrow> Some (Inr (page\<lparr>sections := secs\<rparr>)))"

definition feeds ::
  "('a, 's) collector \<Rightarrow> string \<Rightarrow> regex \<Rightarrow> (string, unit) collector \<Rightarrow> int \<Rightarrow>
     string list \<times> unit \<Rightarrow> error + string list \<times> unit \<Rightarrow> bool" where
  "feeds coll html pat coll0 startIndex acc0 y =
     (coll0 = collect_markup \<longrightarrow>
        (\<forall>frags. y = Inr (frags, ()) \<longrightarrow>
           (\<exists>rest. frags = fst acc0 @ rest \<and>
              (\<forall>acc st. map_option (map_sum id snd) (blocks_loop html pat coll startIndex (acc, st)) =
                         feed coll rest st))))"

lemma blocks_loop_feeds:
  assumes "blocks_loop html pat coll0 startIndex acc0 = Some y"
  shows "feeds coll html pat coll0 startIndex acc0 y"
proof (rule blocks_loop.raw_induct [rotated, where P = "feeds coll", OF assms], goal_cases)
  case (1 f html pat coll0 startIndex acc0 y)
  show ?case unfolding feeds_def
  proof (intro allI impI)
    fix frags
    assume c: "coll0 = collect_markup" and y: "y = Inr (frags, ())"
    show "\<exists>rest. frags = fst acc0 @ rest \<and>
              (\<forall>acc st. map_option (map_sum id snd) (blocks_loop html pat coll startIndex (acc, st)) =
                         feed coll rest st)"
    proof (cases "startIndex > -1")
      case False
      with 1(2) have "y = Inr acc0" by simp
      with y have a: "frags = fst acc0 @ []" by simp
      from False
      have b: "\<forall>acc st. map_option (map_sum id snd) (blocks_loop html pat coll startIndex (acc, st)) =
                      feed coll [] st"
        by (subst blocks_loop.simps) simp
      show ?thesis
      proof (intro exI conjI)
        show "frags = fst acc0 @ []" by (rule a)
        show "\<forall>acc st. map_option (map_sum id snd) (blocks_loop html pat coll startIndex (acc, st)) =
                      feed coll [] st" by (rule b)
      qed
    next
      case True
      with 1(2) have u: "(case find_close html (1, startIndex + 1) of
           None \<Rightarrow> None
         | Some (Inl e) \<Rightarrow> Some (Inl e)
         | Some (Inr nextCloseDiv) \<Rightarrow>
             (let markup = trim (substring html startIndex (nextCloseDiv + 6))
              in case coll0 markup (snd acc0) of
                   None \<Rightarrow> None
                 | Some (Inl e) \<Rightarrow> Some (Inl e)
                 | Some (Inr (b, st')) \<Rightarrow>
                     f html pat coll0 (regexIndexOf html pat nextCloseDiv) (fst acc0 @ [b], st'))) = Some y"
        by simp
      obtain n where n: "find_close html (1, startIndex + 1) = Some (Inr n)"
      proof (cases "find_close html (1, startIndex + 1)")
        case None
        with u show ?thesis by simp
      next
        case (Some r)
        show ?thesis
        proof (cases r)
          case (Inl e)
          with u Some y show ?thesis by simp
        next
          case (Inr n)
          with Some that show ?thesis by simp
        qed
      qed
      let ?m = "trim (substring html startIndex (n + 6))"
      let ?next = "regexIndexOf html pat n"
      from u n c have "f html pat coll0 ?next (fst acc0 @ [?m], ()) = Some y"
        by (simp add: Let_def collect_markup_def)
      then have "feeds coll html pat coll0 ?next (fst acc0 @ [?m], ()) y" by (rule 1(1))
      with c y have "\<exists>rest. frags = (fst acc0 @ [?m]) @ rest \<and>
              (\<forall>acc st. map_option (map_sum id snd) (blocks_loop html pat coll ?next (acc, st)) =
                         feed coll rest st)"
        unfolding feeds_def by simp
      then obtain rest where rr: "frags = (fst acc0 @ [?m]) @ rest \<and>
              (\<forall>acc st. map_option (map_sum id snd) (blocks_loop html pat coll ?next (acc, st)) =
                         feed coll rest st)" ..
      then have r: "frags = (fst acc0 @ [?m]) @ rest" ..
      from rr have ih: "map_option (map_sum id snd) (blocks_loop html pat coll ?next (acc, st)) =
                        feed coll rest st" for acc st by simp
      have step: "map_option (map_sum id snd) (blocks_loop html pat coll startIndex (acc, st)) =
            feed coll (?m # rest) st" for acc st
      proof (cases "coll ?m st")
        case None
        with True n show ?thesis by (subst blocks_loop.simps) (simp add: Let_def)
      next
        case (Some r')
        show ?thesis
        proof (cases r')
          case (Inl e)
          with Some True n show ?thesis by (subst blocks_loop.simps) (simp add: Let_def)
        next
          case (Inr bs)
          obtain b st' where bs: "bs = (b, st')" by (cases bs)
          have "blocks_loop html pat coll startIndex (acc, st) =
                blocks_loop html pat coll ?next (acc @ [b], st')"
            using Some Inr bs True n by (subst blocks_loop.simps) (simp add: Let_def)
          with ih [of "acc @ [b]" st'] Some Inr bs show ?thesis by simp
        qed
      qed
      show ?thesis
      proof (intro exI conjI allI)
        show "frags = fst acc0 @ (?m # rest)" using r by simp
        show "map_option (map_sum id snd) (blocks_loop html pat coll startIndex (acc, st)) =
              feed coll (?m # rest) st" for acc st by (rule step)
      qed
    qed
  qed
qed

lemma scan_feed:
  assumes "getBoundedDivMarkup html pat collect_markup () = Some (Inr (frags, ()))"
  shows "map_option (map_sum id snd) (getBoundedDivMarkup html pat coll st) = feed coll frags st"
proof (cases html)
  case None
  with assms show ?thesis by (simp add: getBoundedDivMarkup_def)
next
  case (Some h)
  let ?c = "strip_whitespace h"
  show ?thesis
  proof (cases "regexIndexOf ?c pat 0 < 0")
    case True
    with assms Some show ?thesis by (simp add: getBoundedDivMarkup_def Let_def)
  next
    case False
    with assms Some
    have "blocks_loop ?c pat collect_markup (regexIndexOf ?c pat 0) ([], ()) = Some (Inr (frags, ()))"
      by (simp add: getBoundedDivMarkup_def Let_def)
    from blocks_loop_feeds [OF this, of coll]
    have "map_option (map_sum id snd) (blocks_loop ?c pat coll (regexIndexOf ?c pat 0) ([], st)) =
          feed coll frags st"
      unfolding feeds_def by auto
    with False Some show ?thesis by (simp add: getBoundedDivMarkup_def Let_def)
  qed
qed

lemma fromHtml_feed:
  assumes "getBoundedDivMarkup html canvascontrol_regex collect_markup () = Some (Inr (frags, ()))"
  shows "fromHtml guid page html = fromHtml_fragments guid page frags"
proof -
  have e: "feed (fromHtml_collector guid) frags ([], 0) =
           map_option (map_sum id snd)
             (getBoundedDivMarkup html canvascontrol_regex (fromHtml_collector guid) ([], 0))"
    by (rule scan_feed [OF assms, symmetric])
  show ?thesis
  proof (cases "getBoundedDivMarkup html canvascontrol_regex (fromHtml_collector guid) ([], 0)")
    case None
    then show ?thesis unfolding fromHtml_def fromHtml_fragments_def e by simp
  next
    case (Some r)
    show ?thesis
    proof (cases r)
      case (Inl x)
      with Some show ?thesis unfolding fromHtml_def fromHtml_fragments_def e by simp
    next
      case (Inr bs)
      obtain blocks secs counter where "bs = (blocks, (secs, counter))" by (cases bs) auto
      with Some Inr show ?thesis unfolding fromHtml_def fromHtml_fragments_def e by simp
    qed
  qed
qed

definition known_controlType :: "string \<Rightarrow> bool" where
  \<comment> \<open>the discriminant that the callback reads from the fragment has a \<open>case\<close> in its \<open>switch\<close>\<close>
  "known_controlType markup = (fragment_controlType markup \<in> {Some 0, Some 3, Some 4})"

lemma fromHtml_collector_unknown:
  "\<not> known_controlType markup \<Longrightarrow> fromHtml_collector guid markup st = Some (Inr ((), st))"
  by (simp add: fromHtml_collector_def known_controlType_def Let_def)

lemma feed_known:
  "feed (fromHtml_collector guid) (filter known_controlType frags) st =
   feed (fromHtml_collector guid) frags st"
proof (induction frags arbitrary: st)
  case Nil
  show ?case by simp
next
  case (Cons m ms)
  show ?case
  proof (cases "known_controlType m")
    case True
    have "feed (fromHtml_collector guid) (m # filter known_controlType ms) st =
          feed (fromHtml_collector guid) (m # ms) st"
      unfolding feed.simps Cons.IH ..
    with True show ?thesis by simp
  next
    case False
    then have "feed (fromHtml_collector guid) (m # ms) st = feed (fromHtml_collector guid) ms st"
      by (simp add: fromHtml_collector_unknown)
    with False Cons.IH [of st] show ?thesis by simp
  qed
qed

definition fragment_of_type_5 :: string where
  "fragment_of_type_5 =
     ''<div data-sp-canvascontrol=\"\" data-sp-canvasdataversion=\"1.0\" data-sp-controldata=\"&#123;&quot;controlType&quot;&#58;5,&quot;position&quot;&#58;&#123;&quot;sectionIndex&quot;&#58;1,&quot;zoneIndex&quot;&#58;1&#125;&#125;\"></div>''"

lemma fragment_of_type_5_controlType: "fragment_controlType fragment_of_type_5 = Some 5"
  by code_simp

definition fragment_of_type_0 :: string where
  \<comment> \<open>the placeholder of an empty column of factor 6\<close>
  "fragment_of_type_0 =
     ''<div data-sp-canvascontrol=\"\" data-sp-canvasdataversion=\"1.0\" data-sp-controldata=\"&#123;&quot;displayMode&quot;&#58;2,&quot;position&quot;&#58;&#123;&quot;sectionFactor&quot;&#58;6,&quot;sectionIndex&quot;&#58;1,&quot;zoneIndex&quot;&#58;1&#125;&#125;\"></div>''"

definition fragment_of_type_5_last :: string where
  \<comment> \<open>metadata whose last key is \<open>controlType\<close>, so that no comma follows its value\<close>
  "fragment_of_type_5_last =
     ''<div data-sp-canvascontrol=\"\" data-sp-canvasdataversion=\"1.0\" data-sp-controldata=\"&#123;&quot;position&quot;&#58;&#123;&quot;sectionFactor&quot;&#58;12,&quot;sectionIndex&quot;&#58;1,&quot;zoneIndex&quot;&#58;1&#125;,&quot;controlType&quot;&#58;5&#125;\"></div>''"

definition decoded_controlType :: "string \<Rightarrow> error + jsval" where
  \<comment> \<open>\<open>controlData.controlType\<close> of the decoded metadata of a fragment\<close>
  "decoded_controlType markup =
     ebind (getAttrValueFromString markup ''data-sp-controldata'') (\<lambda>a.
     ebind (escapedStringToJson a) (\<lambda>cd. get_prop cd ''controlType''))"

lemma fragments_of_types_5_0:
  "getBoundedDivMarkup (Some (''<div>'' @ fragment_of_type_5 @ fragment_of_type_0 @ ''</div>''))
     canvascontrol_regex collect_markup () =
   Some (Inr ([fragment_of_type_5, fragment_of_type_0], ()))"
  by code_simp

lemma fragment_of_type_0_controlType: "fragment_controlType fragment_of_type_0 = Some 0"
  by code_simp

lemma fromHtml_fragment_of_type_0:
  "fromHtml_fragments Null \<lparr>sections = [], commentsDisabled = False\<rparr> [fragment_of_type_0] =
   Some (Inr \<lparr>sections =
     [\<lparr>section_order = Num 1,
       columns = [\<lparr>controlType = Undefined, dataVersion = Str ''1.0'', order = Num 1,
                   controlData = Obj [(''displayMode'', Num 2),
                                      (''position'', Obj [(''sectionFactor'', Num 6),
                                                          (''sectionIndex'', Num 1),
                                                          (''zoneIndex'', Num 1)])],
                   factor = Num 6, controls = []\<rparr>]\<rparr>],
     commentsDisabled = False\<rparr>)"
  by code_simp

lemma fragment_of_type_5_last_decoded:
  "decoded_controlType fragment_of_type_5_last = Inr (Num 5)"
  by code_simp

lemma fragment_of_type_5_last_read:
  "fragment_controlType fragment_of_type_5_last = Some 0"
  by code_simp

lemma fromHtml_fragment_of_type_5_last:
  "fromHtml Null \<lparr>sections = [], commentsDisabled = False\<rparr>
     (Some (''<div>'' @ fragment_of_type_5_last @ ''</div>'')) =
   Some (Inr \<lparr>sections =
     [\<lparr>section_order = Num 1,
       columns = [\<lparr>controlType = Num 5, dataVersion = Str ''1.0'', order = Num 1,
                   controlData = Obj [(''position'', Obj [(''sectionFactor'', Num 12),
                                                          (''sectionIndex'', Num 1),
                                                          (''zoneIndex'', Num 1)]),
                                      (''controlType'', Num 5)],
                   factor = Num 12, controls = []\<rparr>]\<rparr>],
     commentsDisabled = False\<rparr>)"
  by code_simp

text \<open>
  Claim C9, as the code has it. The discriminant that the \<open>switch\<close> of \<open>fromHtml\<close>
  tests is not \<open>controlData.controlType\<close> of the decoded metadata: it is the number that
  the callback reads from the raw fragment with \<open>/controlType&quot;&#58;(\d*?),/i\<close>,
  that is the digits between \<open>controlType&quot;&#58;\<close> and a comma, \<open>0\<close> when the
  fragment has no such text and \<open>NaN\<close> when there are no digits. For every markup that
  the scanner splits into fragments, \<open>fromHtml\<close> gives what its callback builds from the
  fragments whose discriminant is 0, 3 or 4 alone; on any other fragment the callback
  returns without an error and leaves sections and counter as they are.
\<close>

theorem fromHtml_skips_unknown_types:
  assumes "getBoundedDivMarkup html canvascontrol_regex collect_markup () = Some (Inr (frags, ()))"
  shows "fromHtml guid page html =
           fromHtml_fragments guid page
             (filter (\<lambda>m. fragment_controlType m \<in> {Some 0, Some 3, Some 4}) frags) \<and>
         (\<forall>m st. fragment_controlType m \<notin> {Some 0, Some 3, Some 4} \<longrightarrow>
                   fromHtml_collector guid m st = Some (Inr ((), st)))"
proof -
  have k: "(\<lambda>m. fragment_controlType m \<in> {Some 0, Some 3, Some 4}) = known_controlType"
    by (rule ext) (simp only: known_controlType_def)
  have "fromHtml guid page html = fromHtml_fragments guid page (filter known_controlType frags)"
    unfolding fromHtml_feed [OF assms] fromHtml_fragments_def feed_known ..
  moreover have "\<forall>m st. fragment_controlType m \<notin> {Some 0, Some 3, Some 4} \<longrightarrow>
                   fromHtml_collector guid m st = Some (Inr ((), st))"
    using fromHtml_collector_unknown [of _ guid] unfolding known_controlType_def by blast
  ultimately show ?thesis unfolding k by (rule conjI)
qed

theorem fromHtml_skips_unknown_types_witness:
  "getBoundedDivMarkup (Some (''<div>'' @ fragment_of_type_5 @ fragment_of_type_0 @ ''</div>''))
     canvascontrol_regex collect_markup () =
     Some (Inr ([fragment_of_type_5, fragment_of_type_0], ())) \<and>
   fragment_controlType fragment_of_type_5 \<notin> {Some 0, Some 3, Some 4} \<and>
   fromHtml_collector Null fragment_of_type_5 ([], 0) = Some (Inr ((), ([], 0))) \<and>
   fromHtml Null \<lparr>sections = [], commentsDisabled = False\<rparr>
     (Some (''<div>'' @ fragment_of_type_5 @ fragment_of_type_0 @ ''</div>'')) =
   fromHtml_fragments Null \<lparr>sections = [], commentsDisabled = False\<rparr> [fragment_of_type_0] \<and>
   fromHtml_fragments Null \<lparr>sections = [], commentsDisabled = False\<rparr> [fragment_of_type_0] =
   Some (Inr \<lparr>sections =
     [\<lparr>section_order = Num 1,
       columns = [\<lparr>controlType = Undefined, dataVersion = Str ''1.0'', order = Num 1,
                   controlData = Obj [(''displayMode'', Num 2),
                                      (''position'', Obj [(''sectionFactor'', Num 6),
                                                          (''sectionIndex'', Num 1),
                                                          (''zoneIndex'', Num 1)])],
                   factor = Num 6, controls = []\<rparr>]\<rparr>],
     commentsDisabled = False\<rparr>)"
  using fromHtml_skips_unknown_types [OF fragments_of_types_5_0, of Null
          "\<lparr>sections = [], commentsDisabled = False\<rparr>"]
        fragments_of_types_5_0 fromHtml_fragment_of_type_0
  by (simp add: fragment_of_type_5_controlType fragment_of_type_0_controlType)

theorem controlType_last_key_counterexample:
  "decoded_controlType fragment_of_type_5_last = Inr (Num 5) \<and>
   fragment_controlType fragment_of_type_5_last = Some 0 \<and>
   fromHtml Null \<lparr>sections = [], commentsDisabled = False\<rparr>
     (Some (''<div>'' @ fragment_of_type_5_last @ ''</div>'')) =
   Some (Inr \<lparr>sections =
     [\<lparr>section_order = Num 1,
       columns = [\<lparr>controlType = Num 5, dataVersion = Str ''1.0'', order = Num 1,
                   controlData = Obj [(''position'', Obj [(''sectionFactor'', Num 12),
                                                          (''sectionIndex'', Num 1),
                                                          (''zoneIndex'', Num 1)]),
                                      (''controlType'', Num 5)],
                   factor = Num 12, controls = []\<rparr>]\<rparr>],
     commentsDisabled = False\<rparr>)"
  using fragment_of_type_5_last_decoded fragment_of_type_5_last_read
        fromHtml_fragment_of_type_5_last
  by (intro conjI)


subsection \<open>Reconciliation of zone indices out of order\<close>

definition has_position :: "control \<Rightarrow> jsval \<Rightarrow> jsval \<Rightarrow> bool" where
  \<comment> \<open>the decoded metadata of the control names this zone index and section index\<close>
  "has_position c zoneIndex sectionIndex =
     (case get_prop (control_controlData c) ''position'' of
        Inl e \<Rightarrow> False
      | Inr pos \<Rightarrow> get_prop pos ''zoneIndex'' = Inr zoneIndex \<and>
                   get_prop pos ''sectionIndex'' = Inr sectionIndex)"

definition column_with :: "jsval \<Rightarrow> control list \<Rightarrow> CanvasColumn" where
  \<comment> \<open>the column that \<open>mergeControlToTree\<close> makes for a section index, holding these controls\<close>
  "column_with sectionIndex cs = (new_CanvasColumn sectionIndex (Num 12))\<lparr>controls := cs\<rparr>"

lemma mergeControlToTree_position:
  "has_position c z si \<Longrightarrow>
     mergeControlToTree secs c =
       Inr (if length (filter (\<lambda>s. strict_eq (section_order s) z) secs) < 1
            then secs @ [merge_into_section si c (new_CanvasSection z)]
            else update_first (\<lambda>s. strict_eq (section_order s) z) (merge_into_section si c) secs)"
  by (auto simp: has_position_def mergeControlToTree_def ebind_def split: sum.splits)

theorem zones_2_1_2:
  assumes "has_position c1 (Num 2) (Num a)"
    and "has_position c2 (Num 1) (Num b)"
    and "has_position c3 (Num 2) (Num a')"
  shows
    "ebind (mergeControlToTree [] c1) (\<lambda>s1.
     ebind (mergeControlToTree s1 c2) (\<lambda>s2.
       mergeControlToTree s2 c3)) =
     Inr [\<lparr>section_order = Num 2,
           columns = (if a' = a then [column_with (Num a) [c1, c3]]
                      else [column_with (Num a) [c1], column_with (Num a') [c3]])\<rparr>,
          \<lparr>section_order = Num 1, columns = [column_with (Num b) [c2]]\<rparr>] \<and>
     reindex
         [\<lparr>section_order = Num 2,
           columns = (if a' = a then [column_with (Num a) [c1, c3]]
                      else [column_with (Num a) [c1], column_with (Num a') [c3]])\<rparr>,
          \<lparr>section_order = Num 1, columns = [column_with (Num b) [c2]]\<rparr>] =
       [\<lparr>section_order = Num 1,
         columns = (if a' = a
                    then [column_with (Num 1) [set_control_order (Num 1) c1, set_control_order (Num 2) c3]]
                    else [column_with (Num 1) [set_control_order (Num 1) c1],
                          column_with (Num 2) [set_control_order (Num 1) c3]])\<rparr>,
        \<lparr>section_order = Num 2,
         columns = [column_with (Num 1) [set_control_order (Num 1) c2]]\<rparr>]"
proof -
  have m: "ebind (mergeControlToTree [] c1) (\<lambda>s1.
     ebind (mergeControlToTree s1 c2) (\<lambda>s2.
       mergeControlToTree s2 c3)) =
     Inr [\<lparr>section_order = Num 2,
           columns = (if a' = a then [column_with (Num a) [c1, c3]]
                      else [column_with (Num a) [c1], column_with (Num a') [c3]])\<rparr>,
          \<lparr>section_order = Num 1, columns = [column_with (Num b) [c2]]\<rparr>]"
    by (simp add: mergeControlToTree_position [OF assms(1)] mergeControlToTree_position [OF assms(2)]
          mergeControlToTree_position [OF assms(3)] ebind_def merge_into_section_def
          new_CanvasSection_def new_CanvasColumn_def column_with_def addControl_def)
  have r: "reindex
         [\<lparr>section_order = Num 2,
           columns = (if a' = a then [column_with (Num a) [c1, c3]]
                      else [column_with (Num a) [c1], column_with (Num a') [c3]])\<rparr>,
          \<lparr>section_order = Num 1, columns = [column_with (Num b) [c2]]\<rparr>] =
       [\<lparr>section_order = Num 1,
         columns = (if a' = a
                    then [column_with (Num 1) [set_control_order (Num 1) c1, set_control_order (Num 2) c3]]
                    else [column_with (Num 1) [set_control_order (Num 1) c1],
                          column_with (Num 2) [set_control_order (Num 1) c3]])\<rparr>,
        \<lparr>section_order = Num 2,
         columns = [column_with (Num 1) [set_control_order (Num 1) c2]]\<rparr>]"
    by (simp add: reindex_def reindex_columns_def reindex_controls_def enumerate_eq_zip
          column_with_def new_CanvasColumn_def upt_rec)
  from m r show ?thesis by (rule conjI)
qed

definition text_at :: "string \<Rightarrow> int \<Rightarrow> int \<Rightarrow> control" where
  \<comment> \<open>a text control as \<open>ClientSideText.fromHtml\<close> leaves it, with this id and position\<close>
  "text_at i zoneIndex sectionIndex =
     Text ((new_ClientSideText (Str i) [])
             \<lparr>controlData := Obj [(''controlType'', Num 4), (''id'', Str i),
                                  (''position'', Obj [(''sectionIndex'', Num sectionIndex),
                                                      (''zoneIndex'', Num zoneIndex)])]\<rparr>)"

theorem zones_2_1_2_witness:
  "has_position (text_at ''x'' 2 1) (Num 2) (Num 1) \<and>
   has_position (text_at ''y'' 1 1) (Num 1) (Num 1) \<and>
   has_position (text_at ''z'' 2 1) (Num 2) (Num 1) \<and>
   ebind (mergeControlToTree [] (text_at ''x'' 2 1)) (\<lambda>s1.
     ebind (mergeControlToTree s1 (text_at ''y'' 1 1)) (\<lambda>s2.
       mergeControlToTree s2 (text_at ''z'' 2 1))) =
     Inr [\<lparr>section_order = Num 2,
           columns = [column_with (Num 1) [text_at ''x'' 2 1, text_at ''z'' 2 1]]\<rparr>,
          \<lparr>section_order = Num 1, columns = [column_with (Num 1) [text_at ''y'' 1 1]]\<rparr>]"
proof -
  have a: "has_position (text_at ''x'' 2 1) (Num 2) (Num 1)"
    and b: "has_position (text_at ''y'' 1 1) (Num 1) (Num 1)"
    and c: "has_position (text_at ''z'' 2 1) (Num 2) (Num 1)"
    by (simp_all add: has_position_def text_at_def control_controlData_def)
  from zones_2_1_2 [OF a b c] a b c show ?thesis by simp
qed


subsection \<open>The attribute codec\<close>

fun contains :: "string \<Rightarrow> string \<Rightarrow> bool" where
  \<comment> \<open>\<open>p\<close> occurs in \<open>s\<close>\<close>
  "contains [] p = (p = [])"
| "contains (c # cs) p = (startsWith (c # cs) p \<or> contains cs p)"

definition entity_free :: "string \<Rightarrow> bool" where
  \<comment> \<open>none of the four escapes of the codec occurs in the text\<close>
  "entity_free t =
     (\<not> contains t ''&quot;'' \<and> \<not> contains t ''&#58;'' \<and>
      \<not> contains t ''&#123;'' \<and> \<not> contains t ''&#125;'')"

definition entity_of :: "char \<Rightarrow> string" where
  "entity_of c =
     (if c = CHR 0x22 then ''&quot;''
      else if c = CHR '':'' then ''&#58;''
      else if c = CHR ''{'' then ''&#123;''
      else if c = CHR ''}'' then ''&#125;''
      else [c])"

definition esc_map :: "char set \<Rightarrow> char \<Rightarrow> string" where
  "esc_map S c = (if c \<in> S then entity_of c else [c])"

definition specials :: "char set" where
  "specials = {CHR 0x22, CHR '':'', CHR ''{'', CHR ''}''}"

lemma replaceAll_single:
  "replaceAll [c] r s = concat (map (\<lambda>x. if x = c then r else [x]) s)"
  by (induction s) auto

lemma concat_map_concat:
  "concat (map g (concat (map f t))) = concat (map (\<lambda>x. concat (map g (f x))) t)"
  by (induction t) auto

lemma escape_as_map:
  "replaceAll ''}'' ''&#125;''
     (replaceAll ''{'' ''&#123;''
       (replaceAll '':'' ''&#58;''
         (replaceAll [CHR 0x22] ''&quot;'' t))) = concat (map (esc_map specials) t)"
proof -
  have "concat (map (\<lambda>x. if x = CHR ''}'' then ''&#125;'' else [x])
          (concat (map (\<lambda>x. if x = CHR ''{'' then ''&#123;'' else [x])
            (concat (map (\<lambda>x. if x = CHR '':'' then ''&#58;'' else [x])
              (if x = CHR 0x22 then ''&quot;'' else [x])))))) = esc_map specials x" for x
    by (simp add: esc_map_def specials_def entity_of_def)
  then show ?thesis
    by (simp add: replaceAll_single concat_map_concat)
qed

lemma replaceAll_skip:
  "p \<noteq> [] \<Longrightarrow> hd p \<notin> set u \<Longrightarrow> replaceAll p r (u @ s) = u @ replaceAll p r s"
  by (induction u) (auto simp: neq_Nil_conv)

lemma startsWith_append_plain:
  "startsWith (concat (map f xs)) p \<Longrightarrow>
     (\<And>y. f y = [y] \<or> (f y \<noteq> [] \<and> hd (f y) \<notin> set p \<and> y \<notin> set p)) \<Longrightarrow>
     startsWith xs p"
proof (induction xs p rule: startsWith.induct)
  case (1 s)
  then show ?case by simp
next
  case (2 p ps)
  then show ?case by simp
next
  case (3 c cs p ps)
  from "3.prems"(2) [of c] show ?case
  proof
    assume "f c = [c]"
    with 3 show ?thesis by auto
  next
    assume a: "f c \<noteq> [] \<and> hd (f c) \<notin> set (p # ps) \<and> c \<notin> set (p # ps)"
    then obtain h r where "f c = h # r" "h \<noteq> p" by (cases "f c") auto
    with "3.prems"(1) show ?thesis by simp
  qed
qed


lemma startsWith_self_append: "startsWith (p @ s) p"
  by (induction p) auto

lemma replaceAll_hit: "p \<noteq> [] \<Longrightarrow> replaceAll p r (p @ s) = r @ replaceAll p r s"
proof -
  assume "p \<noteq> []"
  then obtain a q where p: "p = a # q" by (cases p) auto
  have "startsWith (a # q @ s) (a # q)" using startsWith_self_append [of "a # q" s] by simp
  then show ?thesis unfolding p by simp
qed

lemma replaceAll_miss:
  "p \<noteq> [] \<Longrightarrow> \<not> startsWith (a # u @ s) p \<Longrightarrow> hd p \<notin> set u \<Longrightarrow>
     replaceAll p r ((a # u) @ s) = (a # u) @ replaceAll p r s"
  by (simp add: replaceAll_skip)

lemma entity_shape:
  "c \<in> specials \<Longrightarrow>
     \<exists>u. entity_of c = CHR ''&'' # u \<and> CHR ''&'' \<notin> set u \<and> set u \<inter> specials = {}"
  by (auto simp: specials_def entity_of_def)

lemma entity_apart:
  "c \<in> specials \<Longrightarrow> x \<in> specials \<Longrightarrow> x \<noteq> c \<Longrightarrow> \<not> startsWith (entity_of x @ s) (entity_of c)"
  by (auto simp: specials_def entity_of_def)

lemma unescape_stage:
  assumes c: "c \<in> S" and S: "S \<subseteq> specials"
  shows "\<not> contains t (entity_of c) \<Longrightarrow>
     replaceAll (entity_of c) [c] (concat (map (esc_map S) t)) = concat (map (esc_map (S - {c})) t)"
proof (induction t)
  case Nil
  then show ?case by simp
next
  case (Cons x xs)
  from c S have cs: "c \<in> specials" by auto
  from entity_shape [OF cs] obtain u where
    ent: "entity_of c = CHR ''&'' # u" and u1: "CHR ''&'' \<notin> set u" and u2: "set u \<inter> specials = {}"
    by auto
  from Cons.prems have ns: "\<not> startsWith (x # xs) (entity_of c)" and nc: "\<not> contains xs (entity_of c)"
    by simp_all
  note ih = Cons.IH [OF nc]
  let ?rest = "concat (map (esc_map S) xs)"
  let ?rest' = "concat (map (esc_map (S - {c})) xs)"
  show ?case
  proof (cases "x = c")
    case True
    with c have l: "concat (map (esc_map S) (x # xs)) = entity_of c @ ?rest"
      by (simp add: esc_map_def)
    have r: "concat (map (esc_map (S - {c})) (x # xs)) = [c] @ ?rest'"
      using True by (simp add: esc_map_def)
    have "replaceAll (entity_of c) [c] (entity_of c @ ?rest) = [c] @ replaceAll (entity_of c) [c] ?rest"
      using ent by (intro replaceAll_hit) simp
    then show ?thesis unfolding l r ih .
  next
    case xc: False
    show ?thesis
    proof (cases "x \<in> S")
      case True
      with S have xs: "x \<in> specials" by auto
      from entity_shape [OF xs] obtain u' where
        ent': "entity_of x = CHR ''&'' # u'" and u1': "CHR ''&'' \<notin> set u'" by auto
      from True have l: "concat (map (esc_map S) (x # xs)) = (CHR ''&'' # u') @ ?rest"
        by (simp add: esc_map_def ent')
      from True xc have r: "concat (map (esc_map (S - {c})) (x # xs)) = (CHR ''&'' # u') @ ?rest'"
        by (simp add: esc_map_def ent')
      have "\<not> startsWith (CHR ''&'' # u' @ ?rest) (entity_of c)"
        using entity_apart [OF cs xs xc, of ?rest] ent' by simp
      then have "replaceAll (entity_of c) [c] ((CHR ''&'' # u') @ ?rest) =
                 (CHR ''&'' # u') @ replaceAll (entity_of c) [c] ?rest"
        using u1' ent by (intro replaceAll_miss) simp_all
      then show ?thesis unfolding l r ih .
    next
      case False
      then have l: "concat (map (esc_map S) (x # xs)) = x # ?rest"
        by (simp add: esc_map_def)
      from False have r: "concat (map (esc_map (S - {c})) (x # xs)) = x # ?rest'"
        by (simp add: esc_map_def)
      have "\<not> startsWith (x # ?rest) (entity_of c)"
      proof
        assume a: "startsWith (x # ?rest) (entity_of c)"
        with ent have x: "x = CHR ''&''" and b: "startsWith ?rest u" by simp_all
        have "startsWith xs u"
        proof (rule startsWith_append_plain [OF b])
          fix y
          show "esc_map S y = [y] \<or> (esc_map S y \<noteq> [] \<and> hd (esc_map S y) \<notin> set u \<and> y \<notin> set u)"
          proof (cases "y \<in> S")
            case True
            with S have ys: "y \<in> specials" by auto
            from entity_shape [OF ys] u1 u2 ys True show ?thesis by (auto simp: esc_map_def)
          next
            case False
            then show ?thesis by (simp add: esc_map_def)
          qed
        qed
        with x ent ns show False by simp
      qed
      then have "replaceAll (entity_of c) [c] (x # ?rest) = x # replaceAll (entity_of c) [c] ?rest"
        by simp
      then show ?thesis unfolding l r ih .
    qed
  qed
qed

lemma unescape_escape:
  assumes "entity_free t"
  shows "unescape (concat (map (esc_map specials) t)) = t"
proof -
  have q: "entity_of (CHR 0x22) = ''&quot;''" and c: "entity_of CHR '':'' = ''&#58;''"
    and l: "entity_of CHR ''{'' = ''&#123;''" and r: "entity_of CHR ''}'' = ''&#125;''"
    by (simp_all add: entity_of_def)
  from assms have a: "\<not> contains t (entity_of (CHR 0x22))" and b: "\<not> contains t (entity_of CHR '':'')"
    and d: "\<not> contains t (entity_of CHR ''{'')" and e: "\<not> contains t (entity_of CHR ''}'')"
    by (simp_all add: entity_free_def q c l r)
  have s1: "replaceAll ''&quot;'' [CHR 0x22] (concat (map (esc_map specials) t)) =
            concat (map (esc_map {CHR '':'', CHR ''{'', CHR ''}''}) t)"
  proof -
    have "specials - {CHR 0x22} = {CHR '':'', CHR ''{'', CHR ''}''}" by (auto simp: specials_def)
    with unescape_stage [of "CHR 0x22" specials t, OF _ _ a] show ?thesis
      by (simp add: q specials_def)
  qed
  have s2: "replaceAll ''&#58;'' '':'' (concat (map (esc_map {CHR '':'', CHR ''{'', CHR ''}''}) t)) =
            concat (map (esc_map {CHR ''{'', CHR ''}''}) t)"
  proof -
    have "{CHR '':'', CHR ''{'', CHR ''}''} - {CHR '':''} = {CHR ''{'', CHR ''}''}" by auto
    with unescape_stage [of "CHR '':''" "{CHR '':'', CHR ''{'', CHR ''}''}" t, OF _ _ b] show ?thesis
      by (simp add: c specials_def)
  qed
  have s3: "replaceAll ''&#123;'' ''{'' (concat (map (esc_map {CHR ''{'', CHR ''}''}) t)) =
            concat (map (esc_map {CHR ''}''}) t)"
  proof -
    have "{CHR ''{'', CHR ''}''} - {CHR ''{''} = {CHR ''}''}" by auto
    with unescape_stage [of "CHR ''{''" "{CHR ''{'', CHR ''}''}" t, OF _ _ d] show ?thesis
      by (simp add: l specials_def)
  qed
  have s4: "replaceAll ''&#125;'' ''}'' (concat (map (esc_map {CHR ''}''}) t)) =
            concat (map (esc_map {}) t)"
    using unescape_stage [of "CHR ''}''" "{CHR ''}''}" t, OF _ _ e] by (simp add: r specials_def)
  have s5: "concat (map (esc_map {}) t) = t" by (induction t) (simp_all add: esc_map_def)
  show ?thesis unfolding unescape_def by (simp only: s1 s2 s3 s4 s5)
qed

text \<open>
  C1 as amended. A JSON-representable value is one that \<open>JSON.parse\<close> reads back
  from its \<open>JSON.stringify\<close> text. When none of the four escapes occurs in that text,
  decoding the encoded value gives the value back, and encoding the decoded value gives
  the encoded string back.
\<close>

theorem codec_round_trip:
  assumes "JSON_stringify v = Some t"
    and "JSON_parse t = Inr v"
    and "entity_free t"
  shows "ebind (jsonToEscapedString v) (\<lambda>s. escapedStringToJson (Some s)) = Inr v \<and>
         ebind (jsonToEscapedString v) (\<lambda>s.
           ebind (escapedStringToJson (Some s)) jsonToEscapedString) = jsonToEscapedString v"
proof -
  from assms(1) have e: "jsonToEscapedString v = Inr (concat (map (esc_map specials) t))"
    by (simp add: jsonToEscapedString_def escape_as_map)
  from unescape_escape [OF assms(3)] assms(2)
  have "escapedStringToJson (Some (concat (map (esc_map specials) t))) = Inr v"
    by (simp add: escapedStringToJson_def)
  with e show ?thesis by (simp add: ebind_def)
qed

definition nested_example :: jsval where
  \<comment> \<open>a nested object whose strings hold quotes, colons and braces\<close>
  "nested_example =
     Obj [(''a:b'', Str [CHR ''x'', CHR 0x22, CHR ''y'', CHR '':'', CHR ''{'', CHR ''z'', CHR ''}'']),
          (''position'', Obj [(''zoneIndex'', Num 1), (''list'', Arr [Str ''{}'', Null, Bool True])])]"

theorem codec_round_trip_witness:
  "JSON_parse (stringify_val nested_example) = Inr nested_example \<and>
   entity_free (stringify_val nested_example) \<and>
   ebind (jsonToEscapedString nested_example) (\<lambda>s. escapedStringToJson (Some s)) =
     Inr nested_example"
proof -
  have a: "JSON_stringify nested_example = Some (stringify_val nested_example)"
    by (simp add: JSON_stringify_def nested_example_def)
  have b: "JSON_parse (stringify_val nested_example) = Inr nested_example" by code_simp
  have c: "entity_free (stringify_val nested_example)" by code_simp
  from codec_round_trip [OF a b c] b c show ?thesis by simp
qed

theorem codec_entity_counterexample:
  "JSON_parse (stringify_val (Str ''&#58;'')) = Inr (Str ''&#58;'') \<and>
   ebind (jsonToEscapedString (Str ''&#58;'')) (\<lambda>s. escapedStringToJson (Some s)) = Inr (Str '':'') \<and>
   JSON_parse (stringify_val (Str ''&quot;'')) = Inr (Str ''&quot;'') \<and>
   ebind (jsonToEscapedString (Str ''&quot;'')) (\<lambda>s. escapedStringToJson (Some s)) = Inl SyntaxError \<and>
   ebind (jsonToEscapedString (Str ''&quot;'')) (\<lambda>s.
     ebind (escapedStringToJson (Some s)) jsonToEscapedString) \<noteq> jsonToEscapedString (Str ''&quot;'')"
  by code_simp


subsection \<open>The depth guard of the scanner\<close>

inductive counting :: "string \<Rightarrow> int \<times> int \<Rightarrow> int \<times> int \<Rightarrow> bool" for html where
  \<comment> \<open>the states \<open>(openCounter, searchIndex)\<close> at which the inner loop starts a pass\<close>
  first: "counting html st st"
| again: "counting html st st' \<Longrightarrow> scan_step html st' = (st'', n) \<Longrightarrow> fst st'' \<noteq> 0 \<Longrightarrow>
          \<not> (fst st'' > 1000 \<or> fst st'' < 0) \<Longrightarrow> counting html st st''"

inductive scanning ::
  "string \<Rightarrow> regex \<Rightarrow> ('a, 's) collector \<Rightarrow> int \<times> 'a list \<times> 's \<Rightarrow> int \<times> 'a list \<times> 's \<Rightarrow> bool"
  for html pat coll where
  \<comment> \<open>the states \<open>(startIndex, blocks, collector state)\<close> at which the outer loop tests
      its condition\<close>
  start: "scanning html pat coll x x"
| block: "scanning html pat coll x (startIndex, acc) \<Longrightarrow> startIndex > -1 \<Longrightarrow>
          find_close html (1, startIndex + 1) = Some (Inr nextCloseDiv) \<Longrightarrow>
          coll (trim (substring html startIndex (nextCloseDiv + 6))) (snd acc) = Some (Inr (b, st')) \<Longrightarrow>
          scanning html pat coll x (regexIndexOf html pat nextCloseDiv, (fst acc @ [b], st'))"

definition out_of_bounds :: "string \<Rightarrow> int \<times> int \<Rightarrow> bool" where
  \<comment> \<open>the pass from this state leaves the counter above 1000 or below 0\<close>
  "out_of_bounds html st = (fst (fst (scan_step html st)) > 1000 \<or> fst (fst (scan_step html st)) < 0)"

definition counter_out_of_bounds ::
  "string \<Rightarrow> regex \<Rightarrow> ('a, 's) collector \<Rightarrow> 's \<Rightarrow> bool" where
  \<comment> \<open>scanning the cleaned markup \<open>html\<close> comes to a pass of the inner loop that leaves the
      counter out of bounds\<close>
  "counter_out_of_bounds html pat coll st0 =
     (\<exists>startIndex acc st.
        scanning html pat coll (regexIndexOf html pat 0, ([], st0)) (startIndex, acc) \<and>
        startIndex > -1 \<and> counting html (1, startIndex + 1) st \<and> out_of_bounds html st)"

lemma counting_trans:
  "counting html b c \<Longrightarrow> counting html a b \<Longrightarrow> counting html a c"
proof (induction rule: counting.induct)
  case (first st)
  then show ?case .
next
  case (again st st' st'' n)
  from counting.again [OF again.IH [OF again.prems] again.hyps(2) again.hyps(3) again.hyps(4)]
  show ?case .
qed

lemma find_close_step:
  assumes "scan_step html st = (st', n)" and "fst st' \<noteq> 0" and "\<not> (fst st' > 1000 \<or> fst st' < 0)"
  shows "find_close html st = find_close html st'"
  using assms by (subst find_close.simps) (auto split: prod.splits)

lemma find_close_counting:
  "counting html st st' \<Longrightarrow> find_close html st = find_close html st'"
proof (induction rule: counting.induct)
  case (first st)
  show ?case ..
next
  case (again st st' st'' n)
  from find_close_step [OF again.hyps(2) again.hyps(3) again.hyps(4)] again.IH show ?case by simp
qed

lemma find_close_out_of_bounds:
  "out_of_bounds html st \<Longrightarrow> find_close html st = Some (Inl DepthExceeded)"
  by (subst find_close.simps) (auto simp: out_of_bounds_def split: prod.splits)

definition raises_by_depth :: "string \<Rightarrow> int \<times> int \<Rightarrow> error + int \<Rightarrow> bool" where
  "raises_by_depth html st y =
     (\<forall>e. y = Inl e \<longrightarrow> e = DepthExceeded \<and> (\<exists>st'. counting html st st' \<and> out_of_bounds html st'))"

lemma find_close_raises_aux:
  assumes "find_close html st = Some y"
  shows "raises_by_depth html st y"
proof (rule find_close.raw_induct [rotated, where P = raises_by_depth, OF assms], goal_cases)
  case (1 f html st y)
  obtain c s n where step: "scan_step html st = ((c, s), n)"
    by (metis prod.exhaust)
  show ?case
  proof (cases "c = 0")
    case True
    with 1(2) step show ?thesis by (auto simp: raises_by_depth_def)
  next
    case nz: False
    show ?thesis
    proof (cases "c > 1000 \<or> c < 0")
      case True
      with 1(2) step nz have "y = Inl DepthExceeded" by auto
      moreover from True step have "out_of_bounds html st" by (simp add: out_of_bounds_def)
      ultimately show ?thesis using counting.first unfolding raises_by_depth_def by blast
    next
      case False
      with 1(2) step nz have "f html (c, s) = Some y" by auto
      from 1(1) [OF this] have ih:
        "\<forall>e. y = Inl e \<longrightarrow> e = DepthExceeded \<and> (\<exists>st'. counting html (c, s) st' \<and> out_of_bounds html st')"
        by (simp add: raises_by_depth_def)
      have one: "counting html st (c, s)"
        using counting.again [OF counting.first step] nz False by simp
      show ?thesis unfolding raises_by_depth_def
      proof (intro allI impI)
        fix e
        assume "y = Inl e"
        with ih obtain st' where
          e: "e = DepthExceeded" and r: "counting html (c, s) st'" and o: "out_of_bounds html st'"
          by blast
        from counting_trans [OF r one] e o
        show "e = DepthExceeded \<and> (\<exists>st'. counting html st st' \<and> out_of_bounds html st')" by blast
      qed
    qed
  qed
qed

lemma find_close_raises:
  "find_close html st = Some (Inl e) \<Longrightarrow>
     e = DepthExceeded \<and> (\<exists>st'. counting html st st' \<and> out_of_bounds html st')"
  using find_close_raises_aux [of html st "Inl e"] by (simp add: raises_by_depth_def)

lemma scanning_trans:
  "scanning html pat coll b c \<Longrightarrow> scanning html pat coll a b \<Longrightarrow> scanning html pat coll a c"
proof (induction rule: scanning.induct)
  case (start x)
  then show ?case .
next
  case (block x startIndex acc nextCloseDiv b st')
  from scanning.block [OF block.IH [OF block.prems] block.hyps(2) block.hyps(3) block.hyps(4)]
  show ?case .
qed

lemma blocks_loop_scanning:
  "scanning html pat coll x y \<Longrightarrow>
     blocks_loop html pat coll (fst x) (snd x) = blocks_loop html pat coll (fst y) (snd y)"
proof (induction rule: scanning.induct)
  case (start x)
  show ?case ..
next
  case (block x startIndex acc nextCloseDiv b st')
  have "blocks_loop html pat coll startIndex acc =
        blocks_loop html pat coll (regexIndexOf html pat nextCloseDiv) (fst acc @ [b], st')"
    using block.hyps(2,3,4) by (subst blocks_loop.simps) (simp add: Let_def)
  with block.IH show ?case by simp
qed

definition raises_by_depth_or_collector ::
  "string \<Rightarrow> regex \<Rightarrow> ('a, 's) collector \<Rightarrow> int \<Rightarrow> 'a list \<times> 's \<Rightarrow> error + 'a list \<times> 's \<Rightarrow> bool" where
  "raises_by_depth_or_collector html pat coll startIndex acc y =
     (\<forall>e. y = Inl e \<longrightarrow>
        (\<exists>m s. coll m s = Some (Inl e)) \<or>
        (e = DepthExceeded \<and>
         (\<exists>startIndex' acc' st. scanning html pat coll (startIndex, acc) (startIndex', acc') \<and>
            startIndex' > -1 \<and> counting html (1, startIndex' + 1) st \<and> out_of_bounds html st)))"

lemma blocks_loop_raises_aux:
  assumes "blocks_loop html pat coll startIndex acc = Some y"
  shows "raises_by_depth_or_collector html pat coll startIndex acc y"
proof (rule blocks_loop.raw_induct [rotated, where P = raises_by_depth_or_collector, OF assms], goal_cases)
  case (1 f html pat coll startIndex acc y)
  show ?case unfolding raises_by_depth_or_collector_def
  proof (intro allI impI)
    fix e
    assume y: "y = Inl e"
    with 1(2) have pos: "startIndex > -1" by (auto split: if_splits)
    show "(\<exists>m s. coll m s = Some (Inl e)) \<or>
        (e = DepthExceeded \<and>
         (\<exists>startIndex' acc' st. scanning html pat coll (startIndex, acc) (startIndex', acc') \<and>
            startIndex' > -1 \<and> counting html (1, startIndex' + 1) st \<and> out_of_bounds html st))"
    proof (cases "find_close html (1, startIndex + 1)")
      case None
      with 1(2) pos y show ?thesis by simp
    next
      case (Some r)
      show ?thesis
      proof (cases r)
        case (Inl e')
        with 1(2) pos y Some have "e' = e" by simp
        with Some Inl find_close_raises [of html "(1, startIndex + 1)" e]
        obtain st where "e = DepthExceeded" "counting html (1, startIndex + 1) st" "out_of_bounds html st"
          by auto
        with pos scanning.start [of html pat coll "(startIndex, acc)"] show ?thesis by blast
      next
        case (Inr nextCloseDiv)
        let ?markup = "trim (substring html startIndex (nextCloseDiv + 6))"
        show ?thesis
        proof (cases "coll ?markup (snd acc)")
          case None
          with 1(2) pos y Some Inr show ?thesis by (simp add: Let_def)
        next
          case cs: (Some r')
          show ?thesis
          proof (cases r')
            case (Inl e')
            with 1(2) pos y Some Inr cs have "e' = e" by (simp add: Let_def)
            with cs Inl show ?thesis by blast
          next
            case r: (Inr p)
            obtain b st' where p: "p = (b, st')" by (cases p)
            from 1(2) pos y Some Inr cs r p
            have "f html pat coll (regexIndexOf html pat nextCloseDiv) (fst acc @ [b], st') = Some (Inl e)"
              by (simp add: Let_def)
            from 1(1) [OF this] consider
              (coll) "\<exists>m s. coll m s = Some (Inl e)"
              | (depth) startIndex' acc' st where "e = DepthExceeded"
                  "scanning html pat coll (regexIndexOf html pat nextCloseDiv, fst acc @ [b], st') (startIndex', acc')"
                  "startIndex' > -1" "counting html (1, startIndex' + 1) st" "out_of_bounds html st"
              unfolding raises_by_depth_or_collector_def by blast
            then show ?thesis
            proof cases
              case coll
              then show ?thesis by blast
            next
              case depth
              have one: "scanning html pat coll (startIndex, acc) (regexIndexOf html pat nextCloseDiv, fst acc @ [b], st')"
                using scanning.block [OF scanning.start pos] Some Inr cs r p by simp
              from scanning_trans [OF depth(2) one] depth show ?thesis by blast
            qed
          qed
        qed
      qed
    qed
  qed
qed

text \<open>
  C8. While the markup is scanned, the counter of the inner loop goes above 1000 or below
  0 exactly when the call raises the depth error; with a collector that does not raise,
  the scanner raises nothing else.
\<close>

theorem depth_guard:
  "(counter_out_of_bounds (strip_whitespace h) pat coll st0 \<longrightarrow>
      getBoundedDivMarkup (Some h) pat coll st0 = Some (Inl DepthExceeded)) \<and>
   (getBoundedDivMarkup html pat coll st0 = Some (Inl e) \<and> (\<forall>m s. coll m s \<noteq> Some (Inl e)) \<longrightarrow>
      e = DepthExceeded \<and>
      (\<exists>h'. html = Some h' \<and> counter_out_of_bounds (strip_whitespace h') pat coll st0))"
proof -
  have up: "counter_out_of_bounds (strip_whitespace h) pat coll st0 \<longrightarrow>
      getBoundedDivMarkup (Some h) pat coll st0 = Some (Inl DepthExceeded)"
  proof (rule impI)
    let ?c = "strip_whitespace h"
    assume "counter_out_of_bounds ?c pat coll st0"
    then obtain startIndex acc st where
      s: "scanning ?c pat coll (regexIndexOf ?c pat 0, ([], st0)) (startIndex, acc)" and
      pos: "startIndex > -1" and c: "counting ?c (1, startIndex + 1) st" and o: "out_of_bounds ?c st"
      unfolding counter_out_of_bounds_def by blast
    from find_close_counting [OF c] find_close_out_of_bounds [OF o]
    have "find_close ?c (1, startIndex + 1) = Some (Inl DepthExceeded)" by simp
    with pos have "blocks_loop ?c pat coll startIndex acc = Some (Inl DepthExceeded)"
      by (subst blocks_loop.simps) simp
    with blocks_loop_scanning [OF s]
    have b: "blocks_loop ?c pat coll (regexIndexOf ?c pat 0) ([], st0) = Some (Inl DepthExceeded)"
      by simp
    have "regexIndexOf ?c pat 0 \<ge> 0"
    proof (rule ccontr)
      assume "\<not> regexIndexOf ?c pat 0 \<ge> 0"
      then have "blocks_loop ?c pat coll (regexIndexOf ?c pat 0) ([], st0) = Some (Inr ([], st0))"
        by (subst blocks_loop.simps) simp
      with b show False by simp
    qed
    with b show "getBoundedDivMarkup (Some h) pat coll st0 = Some (Inl DepthExceeded)"
      by (simp add: getBoundedDivMarkup_def Let_def)
  qed
  have down: "getBoundedDivMarkup html pat coll st0 = Some (Inl e) \<and> (\<forall>m s. coll m s \<noteq> Some (Inl e)) \<longrightarrow>
      e = DepthExceeded \<and>
      (\<exists>h'. html = Some h' \<and> counter_out_of_bounds (strip_whitespace h') pat coll st0)"
  proof (rule impI)
    assume a: "getBoundedDivMarkup html pat coll st0 = Some (Inl e) \<and> (\<forall>m s. coll m s \<noteq> Some (Inl e))"
    then obtain h' where h: "html = Some h'" by (cases html) (auto simp: getBoundedDivMarkup_def)
    let ?c = "strip_whitespace h'"
    from a h have b: "blocks_loop ?c pat coll (regexIndexOf ?c pat 0) ([], st0) = Some (Inl e)"
      by (auto simp: getBoundedDivMarkup_def Let_def split: if_splits)
    from blocks_loop_raises_aux [OF b] a
    have "e = DepthExceeded \<and> counter_out_of_bounds ?c pat coll st0"
      unfolding raises_by_depth_or_collector_def counter_out_of_bounds_def by blast
    with h show "e = DepthExceeded \<and>
        (\<exists>h'. html = Some h' \<and> counter_out_of_bounds (strip_whitespace h') pat coll st0)" by blast
  qed
  from up down show ?thesis by (rule conjI)
qed


definition nested_divs :: "nat \<Rightarrow> string" where
  \<comment> \<open>a canvas control that opens \<open>n\<close> further divs and closes one\<close>
  "nested_divs n =
     ''<div data-sp-canvascontrol>'' @ concat (replicate n ''<div>'') @ ''</div>''"

lemma div_close_nf:
  "div_close = [Chr (Exact CHR ''<''), Chr (Exact CHR ''/''), Chr (NoCase CHR ''d'' CHR ''D''),
                Chr (NoCase CHR ''i'' CHR ''I''), Chr (NoCase CHR ''v'' CHR ''V''), Chr (Exact CHR ''>'')]"
  by code_simp

lemma div_open_nf:
  "div_open = [Chr (Exact CHR ''<''), Chr (NoCase CHR ''d'' CHR ''D''),
               Chr (NoCase CHR ''i'' CHR ''I''), Chr (NoCase CHR ''v'' CHR ''V''),
               Star (NotChar CHR ''>''), Chr (Exact CHR ''>'')]"
  by code_simp

lemma close_skips_open:
  "rx_search div_close prev (''<div>'' @ s) k = rx_search div_close (Some CHR ''>'') s (k + 5)"
  by (simp add: div_close_nf eval_nat_numeral)

lemma close_after_opens:
  "rx_search div_close prev (concat (replicate m ''<div>'') @ ''</div>'' @ r) k =
     Some (k + 5 * m, 6, (None, None))"
proof (induction m arbitrary: prev k)
  case 0
  show ?case by (simp add: div_close_nf)
next
  case (Suc m)
  have "rx_search div_close prev (concat (replicate (Suc m) ''<div>'') @ ''</div>'' @ r) k =
        rx_search div_close prev (''<div>'' @ (concat (replicate m ''<div>'') @ ''</div>'' @ r)) k"
    by simp
  also have "\<dots> = rx_search div_close (Some CHR ''>'') (concat (replicate m ''<div>'') @ ''</div>'' @ r) (k + 5)"
    by (rule close_skips_open)
  also have "\<dots> = Some (k + 5 + 5 * m, 6, (None, None))" by (rule Suc.IH)
  finally show ?case by simp
qed

lemma close_skips_tail:
  "rx_search div_close prev (''div>'' @ s) k = rx_search div_close (Some CHR ''>'') s (k + 4)"
  by (simp add: div_close_nf eval_nat_numeral)

lemma close_in_tail:
  "search (''div>'' @ concat (replicate m ''<div>'') @ ''</div>'') div_close = 4 + 5 * int m"
proof -
  have "rx_search div_close None (''div>'' @ (concat (replicate m ''<div>'') @ ''</div>'' @ [])) 0 =
        Some (0 + 4 + 5 * m, 6, (None, None))"
    by (simp only: close_skips_tail close_after_opens)
  then have "rx_search div_close None (''div>'' @ concat (replicate m ''<div>'') @ ''</div>'') 0 =
        Some (4 + 5 * m, 6, (None, None))"
    by simp
  then show ?thesis unfolding search_def by simp
qed

lemma open_in_tail:
  "search (''div>'' @ ''<div>'' @ r) div_open = 4"
  by (simp add: search_def div_open_nf eval_nat_numeral)


lemma length_opens: "length (concat (replicate j ''<div>'')) = 5 * j"
  by (induction j) simp_all

lemma opens_split:
  "j < n \<Longrightarrow> concat (replicate n ''<div>'') =
     concat (replicate j ''<div>'') @ ''<div>'' @ concat (replicate (n - j - 1) ''<div>'')"
proof -
  assume "j < n"
  then have "n = j + Suc (n - j - 1)" by simp
  then have "replicate n ''<div>'' = replicate j ''<div>'' @ ''<div>'' # replicate (n - j - 1) ''<div>''"
    by (metis replicate_add replicate_Suc)
  then show ?thesis by simp
qed

lemma drop_nested:
  assumes "j < n"
  shows "drop (28 + 5 * j) (nested_divs n) =
         ''div>'' @ concat (replicate (n - j - 1) ''<div>'') @ ''</div>''"
proof -
  let ?A = "''<div data-sp-canvascontrol>'' @ concat (replicate j ''<div>'')"
  let ?R = "concat (replicate (n - j - 1) ''<div>'') @ ''</div>''"
  have "nested_divs n = ?A @ (''<div>'' @ ?R)"
    by (simp add: nested_divs_def opens_split [OF assms])
  moreover have "length ?A = 27 + 5 * j" by (simp add: length_opens)
  ultimately have "drop (27 + 5 * j) (nested_divs n) = ''<div>'' @ ?R"
    by (metis append_eq_conv_conj)
  then have "drop 1 (drop (27 + 5 * j) (nested_divs n)) = ''div>'' @ ?R" by simp
  then show ?thesis by (simp add: add.commute)
qed

lemma length_nested: "int (length (nested_divs n)) = 33 + 5 * int n"
  by (simp add: nested_divs_def length_opens)

lemma scan_step_nested:
  assumes "j + 1 < n"
  shows "scan_step (nested_divs n) (c, 28 + 5 * int j) =
         ((c + 1, 28 + 5 * int (j + 1)), 27 + 5 * int n)"
proof -
  from assms have j: "j < n" by simp
  have n: "nat (28 + 5 * int j) = 28 + 5 * j" by simp
  from assms obtain m where m: "n - j - 1 = Suc m" by (cases "n - j - 1") auto
  have d: "substring_from (nested_divs n) (28 + 5 * int j) =
           ''div>'' @ concat (replicate (n - j - 1) ''<div>'') @ ''</div>''"
    unfolding substring_from_def n by (rule drop_nested [OF j])
  have o: "search (substring_from (nested_divs n) (28 + 5 * int j)) div_open = 4"
    unfolding d m using open_in_tail [of "concat (replicate m ''<div>'') @ ''</div>''"] by simp
  have c: "search (substring_from (nested_divs n) (28 + 5 * int j)) div_close = 4 + 5 * int (n - j - 1)"
    unfolding d by (rule close_in_tail)
  have c': "4 + 5 * int (n - j - 1) + (28 + 5 * int j) = 27 + 5 * int n"
    using j by (simp add: of_nat_diff algebra_simps)
  show ?thesis
    using assms by (simp add: scan_step_def regexIndexOf_def Let_def o c c')
qed

lemma scan_step_nested_first:
  assumes "1 < n"
  shows "scan_step (nested_divs n) (1, 1) = ((2, 28), 27 + 5 * int n)"
proof -
  from assms obtain m where m: "n = Suc m" by (cases n) auto
  let ?T = "''div data-sp-canvascontrol>''"
  have d: "substring_from (nested_divs n) 1 = ?T @ concat (replicate n ''<div>'') @ ''</div>''"
    by (simp add: substring_from_def nested_divs_def)
  have o: "search (substring_from (nested_divs n) 1) div_open = 26"
    unfolding d by (simp add: m search_def div_open_nf eval_nat_numeral)
  have "rx_search div_close None (?T @ (concat (replicate n ''<div>'') @ ''</div>'' @ [])) 0 =
        rx_search div_close (Some CHR ''>'') (concat (replicate n ''<div>'') @ ''</div>'' @ []) 26"
    by (simp add: div_close_nf eval_nat_numeral)
  also have "\<dots> = Some (26 + 5 * n, 6, (None, None))" by (rule close_after_opens)
  finally have c: "search (substring_from (nested_divs n) 1) div_close = 26 + 5 * int n"
    unfolding d search_def by simp
  show ?thesis
    using assms by (simp add: scan_step_def regexIndexOf_def Let_def o c)
qed

lemma counting_nested:
  "j \<le> 998 \<Longrightarrow> j + 1 < n \<Longrightarrow>
     counting (nested_divs n) (1, 1) (2 + int j, 28 + 5 * int j)"
proof (induction j)
  case 0
  then have "1 < n" by simp
  from counting.again [OF counting.first scan_step_nested_first [OF this]]
  show ?case by simp
next
  case (Suc j)
  then have a: "counting (nested_divs n) (1, 1) (2 + int j, 28 + 5 * int j)" and b: "j + 1 < n"
    by simp_all
  from counting.again [OF a scan_step_nested [OF b]] Suc.prems(1)
  show ?case by (simp add: algebra_simps)
qed

lemma nested_out_of_bounds:
  assumes "1000 \<le> n"
  shows "out_of_bounds (nested_divs n) (1000, 28 + 5 * 998)"
proof -
  from assms have "998 + 1 < n" by simp
  from scan_step_nested [OF this, of 1000] show ?thesis
    by (simp add: out_of_bounds_def)
qed


lemma strip_nested: "strip_whitespace (nested_divs n) = nested_divs n"
proof -
  have "filter (\<lambda>c. c \<notin> set [CHR 0x09, CHR 0x0D, CHR 0x0A]) (concat (replicate n ''<div>'')) =
        concat (replicate n ''<div>'')"
    by (induction n) simp_all
  then show ?thesis by (simp add: strip_whitespace_def nested_divs_def)
qed

lemma canvascontrol_regex_nf:
  "canvascontrol_regex =
     [Chr (Exact CHR ''<''), Chr (NoCase CHR ''d'' CHR ''D''), Chr (NoCase CHR ''i'' CHR ''I''),
      Chr (NoCase CHR ''v'' CHR ''V''), WordBoundary, Star (NotChar CHR ''>''),
      Chr (NoCase CHR ''d'' CHR ''D''), Chr (NoCase CHR ''a'' CHR ''A''),
      Chr (NoCase CHR ''t'' CHR ''T''), Chr (NoCase CHR ''a'' CHR ''A''), Chr (Exact CHR ''-''),
      Chr (NoCase CHR ''s'' CHR ''S''), Chr (NoCase CHR ''p'' CHR ''P''), Chr (Exact CHR ''-''),
      Chr (NoCase CHR ''c'' CHR ''C''), Chr (NoCase CHR ''a'' CHR ''A''),
      Chr (NoCase CHR ''n'' CHR ''N''), Chr (NoCase CHR ''v'' CHR ''V''),
      Chr (NoCase CHR ''a'' CHR ''A''), Chr (NoCase CHR ''s'' CHR ''S''),
      Chr (NoCase CHR ''c'' CHR ''C''), Chr (NoCase CHR ''o'' CHR ''O''),
      Chr (NoCase CHR ''n'' CHR ''N''), Chr (NoCase CHR ''t'' CHR ''T''),
      Chr (NoCase CHR ''r'' CHR ''R''), Chr (NoCase CHR ''o'' CHR ''O''),
      Chr (NoCase CHR ''l'' CHR ''L''), StarLazy (NotChar CHR ''>''), Chr (Exact CHR ''>'')]"
  by code_simp

lemma nested_start: "regexIndexOf (nested_divs n) canvascontrol_regex 0 = 0"
  by (simp add: regexIndexOf_def substring_from_def search_def nested_divs_def
        canvascontrol_regex_nf at_boundary_def is_word_def is_lower_def is_upper_def is_digit_def)

theorem depth_guard_witness:
  "counter_out_of_bounds (strip_whitespace (nested_divs 1000)) canvascontrol_regex
     htmlproperties_collector () \<and>
   getBoundedDivMarkup (Some (nested_divs 1000)) canvascontrol_regex htmlproperties_collector () =
     Some (Inl DepthExceeded) \<and>
   (\<forall>m s. htmlproperties_collector m s \<noteq> Some (Inl DepthExceeded))"
proof -
  have c: "counting (nested_divs 1000) (1, 0 + 1) (2 + int 998, 28 + 5 * int 998)"
    using counting_nested [of 998 1000] by simp
  have o: "out_of_bounds (nested_divs 1000) (2 + int 998, 28 + 5 * int 998)"
    using nested_out_of_bounds [of 1000] by simp
  have "scanning (nested_divs 1000) canvascontrol_regex htmlproperties_collector
          (regexIndexOf (nested_divs 1000) canvascontrol_regex 0, ([], ())) (0, ([], ()))"
    unfolding nested_start by (rule scanning.start)
  with c o have a: "counter_out_of_bounds (strip_whitespace (nested_divs 1000)) canvascontrol_regex
     htmlproperties_collector ()"
    unfolding counter_out_of_bounds_def strip_nested by (intro exI [of _ 0]) auto
  have b: "\<forall>m s. htmlproperties_collector m s \<noteq> Some (Inl DepthExceeded)"
    by (simp add: htmlproperties_collector_def)
  from depth_guard [of "nested_divs 1000" canvascontrol_regex htmlproperties_collector "()"
        "Some (nested_divs 1000)" DepthExceeded] a b
  show ?thesis by simp
qed


subsection \<open>An empty column survives rendering and parsing\<close>























end
